theory Spec2Isabelle
  imports Main
begin

section \<open>A shallow embedding of chess.py\<close>

text \<open>
  The Python of \<^verbatim>\<open>src/chess.py\<close> is embedded function by function. Python integers are
  \<^typ>\<open>int\<close>. A Python \<^verbatim>\<open>str\<close> is a \<^typ>\<open>string\<close>, each \<^typ>\<open>char\<close> standing for the code point
  of the same number, so the strings covered are those over the code points 0 to 255.
  A call that raises is a value \<open>Inl e\<close>, a call that returns \<open>v\<close> is \<open>Inr v\<close>, and
  where a loop may run forever the result is wrapped in \<open>option\<close>, \<open>None\<close> meaning that
  the call does not return. Text written by \<^verbatim>\<open>print\<close> is not part of any state and is
  left out, so \<^verbatim>\<open>Board.render\<close> and \<^verbatim>\<open>Piece.symbol\<close> are not embedded.
\<close>

subsection \<open>Python built-ins used by the program\<close>

datatype error = IndexError | KeyError | ValueError | EOFError

text \<open>\<^verbatim>\<open>xs[i]\<close>: a negative index counts from the end, anything outside raises.\<close>

definition py_index :: "'a list \<Rightarrow> int \<Rightarrow> error + 'a" where
  "py_index xs i =
     (if 0 \<le> i \<and> i < int (length xs) then Inr (xs ! nat i)
      else if i < 0 \<and> - int (length xs) \<le> i then Inr (xs ! nat (int (length xs) + i))
      else Inl IndexError)"

text \<open>\<^verbatim>\<open>xs[i] = v\<close>, with the same treatment of the index.\<close>

definition py_store :: "'a list \<Rightarrow> int \<Rightarrow> 'a \<Rightarrow> error + 'a list" where
  "py_store xs i v =
     (if 0 \<le> i \<and> i < int (length xs) then Inr (xs[nat i := v])
      else if i < 0 \<and> - int (length xs) \<le> i then Inr (xs[nat (int (length xs) + i) := v])
      else Inl IndexError)"

text \<open>
  \<^verbatim>\<open>str.isspace\<close> on one character below 256: tab to carriage return, the four
  separators 28 to 31, the space, NEL (133) and the no-break space (160).
\<close>

definition is_space :: "char \<Rightarrow> bool" where
  "is_space ch =
     (let n = (of_char ch :: nat)
      in (9 \<le> n \<and> n \<le> 13) \<or> (28 \<le> n \<and> n \<le> 32) \<or> n = 133 \<or> n = 160)"

text \<open>\<^verbatim>\<open>s.strip()\<close>: leading and trailing whitespace removed.\<close>

definition py_strip :: "string \<Rightarrow> string" where
  "py_strip s = rev (dropWhile is_space (rev (dropWhile is_space s)))"

text \<open>
  \<^verbatim>\<open>s.lower()\<close> below 256: \<open>A\<close> to \<open>Z\<close> and the capital letters 192 to 222 other than
  the multiplication sign 215 move up by 32, every other character stays.
\<close>

definition lower_char :: "char \<Rightarrow> char" where
  "lower_char ch =
     (let n = (of_char ch :: nat)
      in if (65 \<le> n \<and> n \<le> 90) \<or> (192 \<le> n \<and> n \<le> 222 \<and> n \<noteq> 215) then char_of (n + 32)
         else ch)"

definition py_lower :: "string \<Rightarrow> string" where
  "py_lower s = map lower_char s"

text \<open>\<^verbatim>\<open>s.split()\<close>: the maximal runs of characters that are not whitespace.\<close>

fun split_ws :: "string \<Rightarrow> string \<Rightarrow> string list" where
  "split_ws cur [] = (if cur = [] then [] else [cur])"
| "split_ws cur (x # xs) =
     (if is_space x then (if cur = [] then split_ws [] xs else cur # split_ws [] xs)
      else split_ws (cur @ [x]) xs)"

definition py_split :: "string \<Rightarrow> string list" where
  "py_split s = split_ws [] s"

text \<open>\<^verbatim>\<open>s.startswith(p)\<close>.\<close>

definition startswith :: "string \<Rightarrow> string \<Rightarrow> bool" where
  "startswith s p = (take (length p) s = p)"

text \<open>
  \<^verbatim>\<open>int(ch)\<close> for a string of one character below 256: the decimal digits have a
  value, every other character raises \<^verbatim>\<open>ValueError\<close>.
\<close>

definition py_int :: "char \<Rightarrow> error + int" where
  "py_int ch =
     (let n = (of_char ch :: nat)
      in if 48 \<le> n \<and> n \<le> 57 then Inr (int n - 48) else Inl ValueError)"

text \<open>\<^verbatim>\<open>str(i)\<close>, as the f-string of \<^verbatim>\<open>rc_to_algebraic\<close> formats \<^verbatim>\<open>8 - r\<close>.\<close>

fun str_nat :: "nat \<Rightarrow> string" where
  "str_nat n =
     (if n < 10 then [char_of (48 + n)] else str_nat (n div 10) @ [char_of (48 + n mod 10)])"

definition py_str :: "int \<Rightarrow> string" where
  "py_str i = (if i < 0 then CHR ''-'' # str_nat (nat (- i)) else str_nat (nat i))"

subsection \<open>Coordinate codec\<close>

type_synonym square = "int \<times> int"

text \<open>\<^verbatim>\<open>FILE_TO_COL = {c: i for i, c in enumerate("abcdefgh")}\<close>\<close>

definition FILE_TO_COL :: "char \<rightharpoonup> int" where
  "FILE_TO_COL = map_of (zip ''abcdefgh'' [0, 1, 2, 3, 4, 5, 6, 7])"

text \<open>\<^verbatim>\<open>COL_TO_FILE = {i: c for c, i in FILE_TO_COL.items()}\<close>\<close>

definition COL_TO_FILE :: "int \<rightharpoonup> char" where
  "COL_TO_FILE = map_of (zip [0, 1, 2, 3, 4, 5, 6, 7] ''abcdefgh'')"

definition in_bounds :: "int \<Rightarrow> int \<Rightarrow> bool" where
  "in_bounds r c = (0 \<le> r \<and> r < 8 \<and> 0 \<le> c \<and> c < 8)"

text \<open>
  \<^verbatim>\<open>algebraic_to_rc\<close>: the result \<open>Inr None\<close> is Python's \<^verbatim>\<open>return None\<close>. The
  subscripts, the dictionary lookup and \<^verbatim>\<open>int\<close> keep their failure branches.
\<close>

definition algebraic_to_rc :: "string \<Rightarrow> error + square option" where
  "algebraic_to_rc s0 =
     (let s = py_lower (py_strip s0)
      in if length s \<noteq> 2 then Inr None
         else
           (case py_index s 0 of
              Inl e \<Rightarrow> Inl e
            | Inr f \<Rightarrow>
               (case py_index s 1 of
                  Inl e \<Rightarrow> Inl e
                | Inr d \<Rightarrow>
                   if f \<notin> dom FILE_TO_COL \<or> d \<notin> set ''12345678'' then Inr None
                   else
                     (case py_int d of
                        Inl e \<Rightarrow> Inl e
                      | Inr n \<Rightarrow>
                         (case FILE_TO_COL f of
                            None \<Rightarrow> Inl KeyError
                          | Some c \<Rightarrow> Inr (Some (8 - n, c)))))))"

text \<open>\<^verbatim>\<open>rc_to_algebraic\<close>: a column that is no key of the dictionary raises.\<close>

definition rc_to_algebraic :: "int \<Rightarrow> int \<Rightarrow> error + string" where
  "rc_to_algebraic r c =
     (case COL_TO_FILE c of None \<Rightarrow> Inl KeyError | Some f \<Rightarrow> Inr (f # py_str (8 - r)))"

subsection \<open>Pieces and the board\<close>

text \<open>
  The program builds pieces with the two colours \<^verbatim>\<open>WHITE\<close> and \<^verbatim>\<open>BLACK\<close> only, and
  with the six subclasses of \<^verbatim>\<open>Piece\<close> only.
\<close>

datatype color = WHITE | BLACK

datatype kind = King | Queen | Rook | Bishop | Knight | Pawn

datatype piece = Piece (kind: kind) (color: color)

text \<open>\<^verbatim>\<open>Board.grid\<close>: a list of rows, each a list of cells.\<close>

datatype board = Board (grid: "piece option list list")

text \<open>The shape \<^verbatim>\<open>Board.__init__\<close> creates: eight rows of eight cells.\<close>

definition wf_board :: "board \<Rightarrow> bool" where
  "wf_board b = (length (grid b) = 8 \<and> list_all (\<lambda>row. length row = 8) (grid b))"

text \<open>\<^verbatim>\<open>Board.at\<close>: \<^verbatim>\<open>self.grid[r][c]\<close>.\<close>

definition at :: "board \<Rightarrow> int \<Rightarrow> int \<Rightarrow> error + piece option" where
  "at b r c = (case py_index (grid b) r of Inl e \<Rightarrow> Inl e | Inr row \<Rightarrow> py_index row c)"

text \<open>
  The assignment \<^verbatim>\<open>self.grid[r][c] = v\<close>. The rows are eight separate lists, so the
  store changes one row only.
\<close>

definition set_cell :: "board \<Rightarrow> int \<Rightarrow> int \<Rightarrow> piece option \<Rightarrow> error + board" where
  "set_cell b r c v =
     (case py_index (grid b) r of
        Inl e \<Rightarrow> Inl e
      | Inr row \<Rightarrow>
         (case py_store row c v of
            Inl e \<Rightarrow> Inl e
          | Inr row' \<Rightarrow>
             (case py_store (grid b) r row' of Inl e \<Rightarrow> Inl e | Inr g \<Rightarrow> Inr (Board g))))"

definition is_opponent :: "piece \<Rightarrow> piece option \<Rightarrow> bool" where
  "is_opponent self other = (case other of None \<Rightarrow> False | Some t \<Rightarrow> color t \<noteq> color self)"

subsection \<open>Move generation\<close>

text \<open>
  The \<^verbatim>\<open>while\<close> loop of \<^verbatim>\<open>Piece.line_moves\<close>, entered at \<open>(rr, cc)\<close> with the list
  \<open>moves\<close> built so far. With the direction \<open>(0, 0)\<close> on an empty square the loop does
  not end, hence the \<open>option\<close>.
\<close>

partial_function (option) line_walk ::
  "piece \<Rightarrow> board \<Rightarrow> int \<Rightarrow> int \<Rightarrow> int \<Rightarrow> int \<Rightarrow> square list \<Rightarrow> (error + square list) option"
where
  "line_walk self b rr cc dr dc moves =
     (if in_bounds rr cc then
        (case at b rr cc of
           Inl e \<Rightarrow> Some (Inl e)
         | Inr None \<Rightarrow> line_walk self b (rr + dr) (cc + dc) dr dc (moves @ [(rr, cc)])
         | Inr (Some t) \<Rightarrow>
            Some (Inr (if is_opponent self (Some t) then moves @ [(rr, cc)] else moves)))
      else Some (Inr moves))"

declare line_walk.simps [code]

text \<open>The \<^verbatim>\<open>for dr, dc in deltas\<close> loop around it.\<close>

fun line_loop ::
  "piece \<Rightarrow> board \<Rightarrow> int \<Rightarrow> int \<Rightarrow> (int \<times> int) list \<Rightarrow> square list \<Rightarrow> (error + square list) option"
where
  "line_loop self b r c [] moves = Some (Inr moves)"
| "line_loop self b r c ((dr, dc) # deltas) moves =
     (case line_walk self b (r + dr) (c + dc) dr dc moves of
        None \<Rightarrow> None
      | Some (Inl e) \<Rightarrow> Some (Inl e)
      | Some (Inr moves') \<Rightarrow> line_loop self b r c deltas moves')"

definition line_moves ::
  "piece \<Rightarrow> board \<Rightarrow> int \<Rightarrow> int \<Rightarrow> (int \<times> int) list \<Rightarrow> (error + square list) option"
where
  "line_moves self b r c deltas = line_loop self b r c deltas []"

text \<open>
  \<^verbatim>\<open>King.pseudo_legal_moves\<close>: the two nested loops over \<^verbatim>\<open>(-1,0,1)\<close> visit the nine
  pairs in row-major order and skip \<open>(0, 0)\<close>.
\<close>

fun king_loop :: "piece \<Rightarrow> board \<Rightarrow> int \<Rightarrow> int \<Rightarrow> (int \<times> int) list \<Rightarrow> square list \<Rightarrow> error + square list"
where
  "king_loop self b r c [] m = Inr m"
| "king_loop self b r c ((dr, dc) # rest) m =
     (if dr = 0 \<and> dc = 0 then king_loop self b r c rest m
      else if in_bounds (r + dr) (c + dc) then
        (case at b (r + dr) (c + dc) of
           Inl e \<Rightarrow> Inl e
         | Inr t \<Rightarrow>
            if t = None \<or> is_opponent self t then king_loop self b r c rest (m @ [(r + dr, c + dc)])
            else king_loop self b r c rest m)
      else king_loop self b r c rest m)"

definition king_moves :: "piece \<Rightarrow> board \<Rightarrow> int \<Rightarrow> int \<Rightarrow> error + square list" where
  "king_moves self b r c = king_loop self b r c (List.product [-1, 0, 1] [-1, 0, 1]) []"

text \<open>\<^verbatim>\<open>Knight.pseudo_legal_moves\<close>.\<close>

fun knight_loop :: "piece \<Rightarrow> board \<Rightarrow> int \<Rightarrow> int \<Rightarrow> (int \<times> int) list \<Rightarrow> square list \<Rightarrow> error + square list"
where
  "knight_loop self b r c [] m = Inr m"
| "knight_loop self b r c ((dr, dc) # rest) m =
     (if in_bounds (r + dr) (c + dc) then
        (case at b (r + dr) (c + dc) of
           Inl e \<Rightarrow> Inl e
         | Inr t \<Rightarrow>
            if t = None \<or> is_opponent self t then knight_loop self b r c rest (m @ [(r + dr, c + dc)])
            else knight_loop self b r c rest m)
      else knight_loop self b r c rest m)"

definition knight_moves :: "piece \<Rightarrow> board \<Rightarrow> int \<Rightarrow> int \<Rightarrow> error + square list" where
  "knight_moves self b r c =
     knight_loop self b r c
       [(-2, -1), (-2, 1), (-1, -2), (-1, 2), (1, -2), (1, 2), (2, -1), (2, 1)] []"

text \<open>\<^verbatim>\<open>Pawn.pseudo_legal_moves\<close>: first the forward part, then the loop over \<^verbatim>\<open>(-1,1)\<close>.\<close>

definition pawn_forward :: "piece \<Rightarrow> board \<Rightarrow> int \<Rightarrow> int \<Rightarrow> error + square list" where
  "pawn_forward self b r c =
     (let d = (if color self = WHITE then -1 else 1);
          start = (if color self = WHITE then 6 else 1)
      in if in_bounds (r + d) c then
           (case at b (r + d) c of
              Inl e \<Rightarrow> Inl e
            | Inr (Some t) \<Rightarrow> Inr []
            | Inr None \<Rightarrow>
               if r = start \<and> in_bounds (r + 2 * d) c then
                 (case at b (r + 2 * d) c of
                    Inl e \<Rightarrow> Inl e
                  | Inr (Some t) \<Rightarrow> Inr [(r + d, c)]
                  | Inr None \<Rightarrow> Inr [(r + d, c), (r + 2 * d, c)])
               else Inr [(r + d, c)])
         else Inr [])"

fun pawn_loop :: "piece \<Rightarrow> board \<Rightarrow> int \<Rightarrow> int \<Rightarrow> int list \<Rightarrow> square list \<Rightarrow> error + square list"
where
  "pawn_loop self b r c [] m = Inr m"
| "pawn_loop self b r c (dc # rest) m =
     (let d = (if color self = WHITE then -1 else 1)
      in if in_bounds (r + d) (c + dc) then
           (case at b (r + d) (c + dc) of
              Inl e \<Rightarrow> Inl e
            | Inr t \<Rightarrow>
               if is_opponent self t then pawn_loop self b r c rest (m @ [(r + d, c + dc)])
               else pawn_loop self b r c rest m)
         else pawn_loop self b r c rest m)"

definition pawn_moves :: "piece \<Rightarrow> board \<Rightarrow> int \<Rightarrow> int \<Rightarrow> error + square list" where
  "pawn_moves self b r c =
     (case pawn_forward self b r c of Inl e \<Rightarrow> Inl e | Inr m \<Rightarrow> pawn_loop self b r c [-1, 1] m)"

text \<open>The method \<^verbatim>\<open>pseudo_legal_moves\<close>, dispatched on the class of the piece.\<close>

definition pseudo_legal_moves :: "piece \<Rightarrow> board \<Rightarrow> int \<Rightarrow> int \<Rightarrow> (error + square list) option"
where
  "pseudo_legal_moves self b r c =
     (case kind self of
        King \<Rightarrow> Some (king_moves self b r c)
      | Queen \<Rightarrow>
         line_moves self b r c [(-1, 0), (1, 0), (0, -1), (0, 1), (-1, -1), (-1, 1), (1, -1), (1, 1)]
      | Rook \<Rightarrow> line_moves self b r c [(-1, 0), (1, 0), (0, -1), (0, 1)]
      | Bishop \<Rightarrow> line_moves self b r c [(-1, -1), (-1, 1), (1, -1), (1, 1)]
      | Knight \<Rightarrow> Some (knight_moves self b r c)
      | Pawn \<Rightarrow> Some (pawn_moves self b r c))"

subsection \<open>Board: construction and the mutating operation\<close>

text \<open>The first loop of \<^verbatim>\<open>Board.setup_initial\<close>, over the columns \<^verbatim>\<open>range(8)\<close>.\<close>

fun pawn_rows :: "board \<Rightarrow> int list \<Rightarrow> error + board" where
  "pawn_rows b [] = Inr b"
| "pawn_rows b (c # cs) =
     (case set_cell b 6 c (Some (Piece Pawn WHITE)) of
        Inl e \<Rightarrow> Inl e
      | Inr b1 \<Rightarrow>
         (case set_cell b1 1 c (Some (Piece Pawn BLACK)) of
            Inl e \<Rightarrow> Inl e
          | Inr b2 \<Rightarrow> pawn_rows b2 cs))"

text \<open>The second loop, over \<^verbatim>\<open>enumerate(order)\<close>.\<close>

fun back_rows :: "board \<Rightarrow> (int \<times> kind) list \<Rightarrow> error + board" where
  "back_rows b [] = Inr b"
| "back_rows b ((c, cls) # rest) =
     (case set_cell b 7 c (Some (Piece cls WHITE)) of
        Inl e \<Rightarrow> Inl e
      | Inr b1 \<Rightarrow>
         (case set_cell b1 0 c (Some (Piece cls BLACK)) of
            Inl e \<Rightarrow> Inl e
          | Inr b2 \<Rightarrow> back_rows b2 rest))"

definition order :: "kind list" where
  "order = [Rook, Knight, Bishop, Queen, King, Bishop, Knight, Rook]"

definition setup_initial :: "board \<Rightarrow> error + board" where
  "setup_initial b =
     (case pawn_rows b [0, 1, 2, 3, 4, 5, 6, 7] of
        Inl e \<Rightarrow> Inl e
      | Inr b1 \<Rightarrow> back_rows b1 (zip [0, 1, 2, 3, 4, 5, 6, 7] order))"

text \<open>\<^verbatim>\<open>Board.__init__\<close>, that is the call \<^verbatim>\<open>Board()\<close>.\<close>

definition new_board :: "error + board" where
  "new_board = setup_initial (Board (replicate 8 (replicate 8 None)))"

text \<open>
  \<^verbatim>\<open>Board.move\<close>. The value returned is the pair \<^verbatim>\<open>(ok, "")\<close>; the board after the
  call is returned beside it.
\<close>

definition move :: "board \<Rightarrow> square \<Rightarrow> square \<Rightarrow> (error + (bool \<times> string) \<times> board) option" where
  "move b src dst =
     (case src of (r1, c1) \<Rightarrow> case dst of (r2, c2) \<Rightarrow>
        (case at b r1 c1 of
           Inl e \<Rightarrow> Some (Inl e)
         | Inr None \<Rightarrow> Some (Inr ((False, []), b))
         | Inr (Some p) \<Rightarrow>
            (case at b r2 c2 of
               Inl e \<Rightarrow> Some (Inl e)
             | Inr t \<Rightarrow>
                if (case t of None \<Rightarrow> False | Some q \<Rightarrow> color q = color p)
                then Some (Inr ((False, []), b))
                else
                  (case pseudo_legal_moves p b r1 c1 of
                     None \<Rightarrow> None
                   | Some (Inl e) \<Rightarrow> Some (Inl e)
                   | Some (Inr ms) \<Rightarrow>
                      if (r2, c2) \<notin> set ms then Some (Inr ((False, []), b))
                      else
                        (case set_cell b r2 c2 (Some p) of
                           Inl e \<Rightarrow> Some (Inl e)
                         | Inr b1 \<Rightarrow>
                            (case set_cell b1 r1 c1 None of
                               Inl e \<Rightarrow> Some (Inl e)
                             | Inr b2 \<Rightarrow>
                                if kind p = Pawn \<and>
                                   ((color p = WHITE \<and> r2 = 0) \<or> (color p = BLACK \<and> r2 = 7))
                                then
                                  (case set_cell b2 r2 c2 (Some (Piece Queen (color p))) of
                                     Inl e \<Rightarrow> Some (Inl e)
                                   | Inr b3 \<Rightarrow> Some (Inr ((True, []), b3)))
                                else Some (Inr ((True, []), b2))))))))"

text \<open>\<^verbatim>\<open>Board.legal_moves_from\<close>; a piece object is always truthy.\<close>

definition legal_moves_from :: "board \<Rightarrow> int \<Rightarrow> int \<Rightarrow> (error + square list) option" where
  "legal_moves_from b r c =
     (case at b r c of
        Inl e \<Rightarrow> Some (Inl e)
      | Inr None \<Rightarrow> Some (Inr [])
      | Inr (Some p) \<Rightarrow> pseudo_legal_moves p b r c)"

subsection \<open>Game\<close>

record game =
  board :: board
  turn :: color
  history :: "string list"
  running :: bool

text \<open>\<^verbatim>\<open>Game.__init__\<close>.\<close>

definition new_game :: "error + game" where
  "new_game =
     (case new_board of
        Inl e \<Rightarrow> Inl e
      | Inr b \<Rightarrow> Inr \<lparr>board = b, turn = WHITE, history = [], running = True\<rparr>)"

definition other :: "color \<Rightarrow> color" where
  "other col = (if col = WHITE then BLACK else WHITE)"

definition switch_turn :: "game \<Rightarrow> game" where
  "switch_turn g = g\<lparr>turn := other (turn g)\<rparr>"

text \<open>
  The generator expression of the \<^verbatim>\<open>moves\<close> command: every move is formatted, and
  the first formatting that raises ends the command.
\<close>

fun format_all :: "square list \<Rightarrow> error + string list" where
  "format_all [] = Inr []"
| "format_all ((r, c) # ms) =
     (case rc_to_algebraic r c of
        Inl e \<Rightarrow> Inl e
      | Inr n \<Rightarrow> (case format_all ms of Inl e \<Rightarrow> Inl e | Inr ns \<Rightarrow> Inr (n # ns)))"

text \<open>
  Lines 154 to 160 of \<^verbatim>\<open>Game.input_loop\<close>, with \<open>src\<close> and \<open>dst\<close> parsed from the two
  words \<open>p0\<close> and \<open>p1\<close>: the check of the turn, the call of \<^verbatim>\<open>Board.move\<close>, the history
  entry and the change of turn. Every \<^verbatim>\<open>continue\<close> returns the game as it is then.
\<close>

definition apply_move :: "game \<Rightarrow> string \<Rightarrow> string \<Rightarrow> square \<Rightarrow> square \<Rightarrow> (error + game) option"
where
  "apply_move g p0 p1 src dst =
     (case at (board g) (fst src) (snd src) of
        Inl e \<Rightarrow> Some (Inl e)
      | Inr None \<Rightarrow> Some (Inr g)
      | Inr (Some p) \<Rightarrow>
         if color p \<noteq> turn g then Some (Inr g)
         else
           (case move (board g) src dst of
              None \<Rightarrow> None
            | Some (Inl e) \<Rightarrow> Some (Inl e)
            | Some (Inr (res, b')) \<Rightarrow>
               if \<not> fst res then Some (Inr (g\<lparr>board := b'\<rparr>))
               else
                 Some (Inr (switch_turn (g\<lparr>board := b', history := history g @ [p0 @ '' -> '' @ p1]\<rparr>)))))"

text \<open>
  Lines 150 to 153: the line is split, and both words are parsed before either result
  is looked at.
\<close>

definition move_command :: "game \<Rightarrow> string \<Rightarrow> (error + game) option" where
  "move_command g raw =
     (let parts = py_split raw
      in if length parts \<noteq> 2 then Some (Inr g)
         else
           (case py_index parts 0 of
              Inl e \<Rightarrow> Some (Inl e)
            | Inr p0 \<Rightarrow>
               (case py_index parts 1 of
                  Inl e \<Rightarrow> Some (Inl e)
                | Inr p1 \<Rightarrow>
                   (case algebraic_to_rc p0 of
                      Inl e \<Rightarrow> Some (Inl e)
                    | Inr src \<Rightarrow>
                       (case algebraic_to_rc p1 of
                          Inl e \<Rightarrow> Some (Inl e)
                        | Inr dst \<Rightarrow>
                           (case src of
                              None \<Rightarrow> Some (Inr g)
                            | Some s \<Rightarrow>
                               (case dst of
                                  None \<Rightarrow> Some (Inr g)
                                | Some d \<Rightarrow> apply_move g p0 p1 s d)))))))"

text \<open>
  One pass through the body of the \<^verbatim>\<open>while\<close> loop, on the line \<^verbatim>\<open>input\<close> returned.
  The flag of the result says whether the loop goes on (\<open>False\<close> after \<^verbatim>\<open>break\<close>).
\<close>

definition loop_body :: "game \<Rightarrow> string \<Rightarrow> (error + game \<times> bool) option" where
  "loop_body g line =
     (let raw = py_strip line
      in if raw = ''quit'' \<or> raw = ''exit'' then Some (Inr (g, False))
         else if raw = ''board'' then Some (Inr (g, True))
         else if raw = ''history'' then Some (Inr (g, True))
         else if startswith raw ''moves '' then
           (case py_index (py_split raw) 1 of
              Inl e \<Rightarrow> Some (Inl e)
            | Inr tok \<Rightarrow>
               (case algebraic_to_rc tok of
                  Inl e \<Rightarrow> Some (Inl e)
                | Inr None \<Rightarrow> Some (Inr (g, True))
                | Inr (Some (r, c)) \<Rightarrow>
                   (case legal_moves_from (board g) r c of
                      None \<Rightarrow> None
                    | Some (Inl e) \<Rightarrow> Some (Inl e)
                    | Some (Inr ms) \<Rightarrow>
                       (case format_all ms of
                          Inl e \<Rightarrow> Some (Inl e)
                        | Inr names \<Rightarrow> Some (Inr (g, True))))))
         else
           (case move_command g raw of
              None \<Rightarrow> None
            | Some (Inl e) \<Rightarrow> Some (Inl e)
            | Some (Inr g') \<Rightarrow> Some (Inr (g', True))))"

text \<open>
  \<^verbatim>\<open>Game.input_loop\<close> on the lines that \<^verbatim>\<open>input\<close> will return, in order; when they are
  used up \<^verbatim>\<open>input\<close> raises \<^verbatim>\<open>EOFError\<close>.
\<close>

fun input_loop :: "game \<Rightarrow> string list \<Rightarrow> (error + game) option" where
  "input_loop g [] = (if running g then Some (Inl EOFError) else Some (Inr g))"
| "input_loop g (line # rest) =
     (if running g then
        (case loop_body g line of
           None \<Rightarrow> None
         | Some (Inl e) \<Rightarrow> Some (Inl e)
         | Some (Inr (g', go_on)) \<Rightarrow> if go_on then input_loop g' rest else Some (Inr g'))
      else Some (Inr g))"

subsection \<open>Notions used in the statements\<close>

text \<open>A list of squares that all lie on the board.\<close>

definition on_board :: "square list \<Rightarrow> bool" where
  "on_board ms = list_all (\<lambda>sq. in_bounds (fst sq) (snd sq)) ms"

text \<open>
  What stands on the destination after a move of the piece \<open>p\<close> to row \<open>r2\<close>: the test
  is the one of line 111 of \<^verbatim>\<open>Board.move\<close>.
\<close>

definition promoted :: "piece \<Rightarrow> int \<Rightarrow> piece" where
  "promoted p r2 =
     (if kind p = Pawn \<and> ((color p = WHITE \<and> r2 = 0) \<or> (color p = BLACK \<and> r2 = 7))
      then Piece Queen (color p) else p)"

text \<open>The locals \<^verbatim>\<open>d\<close> and \<^verbatim>\<open>start\<close> of \<^verbatim>\<open>Pawn.pseudo_legal_moves\<close>.\<close>

definition pawn_dir :: "color \<Rightarrow> int" where
  "pawn_dir col = (if col = WHITE then -1 else 1)"

definition pawn_start :: "color \<Rightarrow> int" where
  "pawn_start col = (if col = WHITE then 6 else 1)"

text \<open>
  The normal form of an input and the shape of a square name, in the words of the
  specification.
\<close>

definition normalize :: "string \<Rightarrow> string" where
  "normalize s = py_lower (py_strip s)"

definition valid_name :: "string \<Rightarrow> bool" where
  "valid_name s = (length s = 2 \<and> s ! 0 \<in> set ''abcdefgh'' \<and> s ! 1 \<in> set ''12345678'')"

text \<open>The number of pieces of one colour on a board.\<close>

definition count_color :: "color \<Rightarrow> board \<Rightarrow> nat" where
  "count_color col b =
     length (filter (\<lambda>cell. case cell of None \<Rightarrow> False | Some p \<Rightarrow> color p = col) (concat (grid b)))"

text \<open>
  The squares the loop of \<^verbatim>\<open>line_moves\<close> collects when it is entered at \<open>(rr, cc)\<close>: the
  square \<open>k\<close> steps on is reached when the \<open>k\<close> squares before it are in bounds and
  empty and it is itself in bounds and not held by a piece of the mover's colour.
\<close>

fun walk_reach :: "piece \<Rightarrow> board \<Rightarrow> int \<Rightarrow> int \<Rightarrow> int \<Rightarrow> int \<Rightarrow> nat \<Rightarrow> bool" where
  "walk_reach self b rr cc dr dc 0 =
     (in_bounds rr cc \<and>
      (case at b rr cc of Inl e \<Rightarrow> False | Inr None \<Rightarrow> True | Inr (Some t) \<Rightarrow> color t \<noteq> color self))"
| "walk_reach self b rr cc dr dc (Suc k) =
     (in_bounds rr cc \<and> at b rr cc = Inr None \<and> walk_reach self b (rr + dr) (cc + dc) dr dc k)"

definition walk_squares :: "piece \<Rightarrow> board \<Rightarrow> int \<Rightarrow> int \<Rightarrow> int \<Rightarrow> int \<Rightarrow> square set" where
  "walk_squares self b rr cc dr dc =
     {sq. \<exists>k. walk_reach self b rr cc dr dc k \<and> sq = (rr + int k * dr, cc + int k * dc)}"

text \<open>
  Sliding in the words of the specification: from the origin \<open>(r, c)\<close> along the direction
  \<open>d\<close>, the square \<open>k\<close> steps away is a destination when every square before it on the
  way is in bounds and empty, and it is in bounds and either empty or held by a piece of
  the other colour. The directions are those of the three sliding pieces.
\<close>

definition slide_reach :: "piece \<Rightarrow> board \<Rightarrow> int \<Rightarrow> int \<Rightarrow> int \<times> int \<Rightarrow> nat \<Rightarrow> bool" where
  "slide_reach self b r c d k =
     (1 \<le> k \<and>
      (\<forall>j\<in>{1..<k}. in_bounds (r + int j * fst d) (c + int j * snd d) \<and>
                    at b (r + int j * fst d) (c + int j * snd d) = Inr None) \<and>
      in_bounds (r + int k * fst d) (c + int k * snd d) \<and>
      (case at b (r + int k * fst d) (c + int k * snd d) of
         Inl e \<Rightarrow> False
       | Inr None \<Rightarrow> True
       | Inr (Some t) \<Rightarrow> color t \<noteq> color self))"

definition directions :: "kind \<Rightarrow> (int \<times> int) list" where
  "directions k =
     (case k of
        Queen \<Rightarrow> [(-1, 0), (1, 0), (0, -1), (0, 1), (-1, -1), (-1, 1), (1, -1), (1, 1)]
      | Rook \<Rightarrow> [(-1, 0), (1, 0), (0, -1), (0, 1)]
      | Bishop \<Rightarrow> [(-1, -1), (-1, 1), (1, -1), (1, 1)]
      | _ \<Rightarrow> [])"

subsection \<open>Positions used as examples\<close>

text \<open>The standard starting position, and the game that starts from it with White to move.\<close>

definition back_rank :: "color \<Rightarrow> piece option list" where
  "back_rank col = map (\<lambda>k. Some (Piece k col)) [Rook, Knight, Bishop, Queen, King, Bishop, Knight, Rook]"

definition start_position :: board where
  "start_position =
     Board [back_rank BLACK, replicate 8 (Some (Piece Pawn BLACK)),
            replicate 8 None, replicate 8 None, replicate 8 None, replicate 8 None,
            replicate 8 (Some (Piece Pawn WHITE)), back_rank WHITE]"

definition start_game :: game where
  "start_game = \<lparr>board = start_position, turn = WHITE, history = [], running = True\<rparr>"

text \<open>The starting position after the White pawn went from e2 to e4.\<close>

definition after_e2e4 :: board where
  "after_e2e4 =
     Board [back_rank BLACK, replicate 8 (Some (Piece Pawn BLACK)),
            replicate 8 None, replicate 8 None,
            replicate 4 None @ [Some (Piece Pawn WHITE)] @ replicate 3 None, replicate 8 None,
            replicate 4 (Some (Piece Pawn WHITE)) @ [None] @ replicate 3 (Some (Piece Pawn WHITE)),
            back_rank WHITE]"

text \<open>A lone White pawn on a7 (row 1, column 0).\<close>

definition pawn_on_a7 :: board where
  "pawn_on_a7 =
     Board [replicate 8 None, Some (Piece Pawn WHITE) # replicate 7 None,
            replicate 8 None, replicate 8 None, replicate 8 None, replicate 8 None,
            replicate 8 None, replicate 8 None]"

text \<open>
  A White rook on d4 (row 4, column 3) with a pawn of the given colour on d6 (row 2,
  column 3).
\<close>

definition rook_d4 :: "color \<Rightarrow> board" where
  "rook_d4 col =
     Board [replicate 8 None, replicate 8 None,
            replicate 3 None @ [Some (Piece Pawn col)] @ replicate 4 None, replicate 8 None,
            replicate 3 None @ [Some (Piece Rook WHITE)] @ replicate 4 None, replicate 8 None,
            replicate 8 None, replicate 8 None]"

section \<open>Properties\<close>

subsection \<open>The grid\<close>

lemma py_index_in_range: "0 \<le> i \<Longrightarrow> i < int (length xs) \<Longrightarrow> py_index xs i = Inr (xs ! nat i)"
  by (simp add: py_index_def)

lemma py_store_in_range: "0 \<le> i \<Longrightarrow> i < int (length xs) \<Longrightarrow> py_store xs i v = Inr (xs[nat i := v])"
  by (simp add: py_store_def)

lemma wf_board_rows: "wf_board b \<Longrightarrow> length (grid b) = 8"
  by (simp add: wf_board_def)

lemma wf_board_cols: "wf_board b \<Longrightarrow> n < 8 \<Longrightarrow> length (grid b ! n) = 8"
  by (simp add: wf_board_def list_all_length)

lemma in_bounds_nat: "in_bounds r c \<Longrightarrow> nat r < 8 \<and> nat c < 8 \<and> 0 \<le> r \<and> 0 \<le> c"
  unfolding in_bounds_def by linarith

lemma at_in_bounds:
  assumes "wf_board b" and "in_bounds r c"
  shows "at b r c = Inr (grid b ! nat r ! nat c)"
proof -
  from in_bounds_nat [OF assms(2)] have n: "nat r < 8" "nat c < 8" "0 \<le> r" "0 \<le> c"
    by simp_all
  have r: "r < int (length (grid b))"
    using n assms(1) by (simp add: wf_board_rows)
  have c: "c < int (length (grid b ! nat r))"
    using n assms(1) by (simp add: wf_board_cols)
  show ?thesis
    by (simp add: at_def py_index_in_range [OF n(3) r] py_index_in_range [OF n(4) c])
qed

lemma set_cell_in_bounds:
  assumes "wf_board b" and "in_bounds r c"
  shows "set_cell b r c v = Inr (Board ((grid b)[nat r := (grid b ! nat r)[nat c := v]]))"
proof -
  from in_bounds_nat [OF assms(2)] have n: "nat r < 8" "nat c < 8" "0 \<le> r" "0 \<le> c"
    by simp_all
  have r: "r < int (length (grid b))"
    using n assms(1) by (simp add: wf_board_rows)
  have c: "c < int (length (grid b ! nat r))"
    using n assms(1) by (simp add: wf_board_cols)
  show ?thesis
    by (simp add: set_cell_def py_index_in_range [OF n(3) r] py_store_in_range [OF n(4) c]
        py_store_in_range [OF n(3) r])
qed

lemma wf_board_update:
  assumes "wf_board b"
  shows "wf_board (Board ((grid b)[i := (grid b ! i)[j := v]]))"
proof (cases "i < length (grid b)")
  case True
  with assms show ?thesis
    by (auto simp add: wf_board_def list_all_length nth_list_update)
next
  case False
  then have "(grid b)[i := (grid b ! i)[j := v]] = grid b"
    by (simp add: list_update_beyond not_less)
  with assms show ?thesis
    by (simp add: wf_board_def)
qed

lemma at_update:
  assumes "wf_board b" and "in_bounds r c" and "in_bounds r' c'"
  shows "at (Board ((grid b)[nat r := (grid b ! nat r)[nat c := v]])) r' c' =
         (if r' = r \<and> c' = c then Inr v else at b r' c')"
proof -
  have wf': "wf_board (Board ((grid b)[nat r := (grid b ! nat r)[nat c := v]]))"
    using assms(1) by (rule wf_board_update)
  from in_bounds_nat [OF assms(2)] have n: "nat r < 8" "nat c < 8" "0 \<le> r" "0 \<le> c"
    by simp_all
  from in_bounds_nat [OF assms(3)] have n': "nat r' < 8" "nat c' < 8" "0 \<le> r'" "0 \<le> c'"
    by simp_all
  have len: "nat r < length (grid b)" "nat r' < length (grid b)"
     "nat c < length (grid b ! nat r)" "nat c' < length (grid b ! nat r')"
    using n n' assms(1) by (simp_all add: wf_board_rows wf_board_cols)
  have eq: "nat r' = nat r \<longleftrightarrow> r' = r" "nat c' = nat c \<longleftrightarrow> c' = c"
    using n n' by auto
  show ?thesis
    using len eq by (auto simp add: at_in_bounds [OF wf' assms(3)] at_in_bounds [OF assms(1,3)] nth_list_update)
qed

lemma set_cell_effect:
  assumes "wf_board b" and "in_bounds r c"
  shows "\<exists>b'. set_cell b r c v = Inr b' \<and> wf_board b' \<and>
           (\<forall>r' c'. in_bounds r' c' \<longrightarrow> at b' r' c' = (if r' = r \<and> c' = c then Inr v else at b r' c'))"
  using assms by (simp add: set_cell_in_bounds wf_board_update at_update)

lemma at_total: "wf_board b \<Longrightarrow> in_bounds r c \<Longrightarrow> \<exists>t. at b r c = Inr t"
  by (simp add: at_in_bounds)

subsection \<open>The coordinate codec\<close>

lemma dom_FILE_TO_COL: "dom FILE_TO_COL = set ''abcdefgh''"
  by (auto simp add: FILE_TO_COL_def split: if_splits)

lemma FILE_TO_COL_value:
  "f \<in> set ''abcdefgh'' \<Longrightarrow> FILE_TO_COL f = Some (int (of_char f) - 97)"
  by (auto simp add: FILE_TO_COL_def)

lemma py_int_digit: "d \<in> set ''12345678'' \<Longrightarrow> py_int d = Inr (int (of_char d) - 48)"
  by (auto simp add: py_int_def)

lemma algebraic_to_rc_cases:
  "algebraic_to_rc s0 =
     (if valid_name (normalize s0)
      then Inr (Some (8 - (int (of_char (normalize s0 ! 1)) - 48), int (of_char (normalize s0 ! 0)) - 97))
      else Inr None)"
proof (cases "length (normalize s0) = 2")
  case False
  then show ?thesis
    by (simp add: algebraic_to_rc_def normalize_def valid_name_def Let_def)
next
  case True
  then obtain f d where s: "normalize s0 = [f, d]"
    by (cases "normalize s0"; cases "tl (normalize s0)") auto
  have "algebraic_to_rc s0 =
          (if f \<notin> dom FILE_TO_COL \<or> d \<notin> set ''12345678'' then Inr None
           else (case py_int d of Inl e \<Rightarrow> Inl e
                 | Inr n \<Rightarrow> (case FILE_TO_COL f of None \<Rightarrow> Inl KeyError
                             | Some c \<Rightarrow> Inr (Some (8 - n, c)))))"
    using s by (simp add: algebraic_to_rc_def normalize_def Let_def py_index_def)
  also have "\<dots> = (if f \<in> set ''abcdefgh'' \<and> d \<in> set ''12345678''
                     then Inr (Some (8 - (int (of_char d) - 48), int (of_char f) - 97)) else Inr None)"
    by (simp only: dom_FILE_TO_COL) (auto simp add: py_int_digit FILE_TO_COL_value simp del: set_simps)
  finally show ?thesis
    by (simp add: s valid_name_def del: set_simps)
qed

lemma format_parse_all:
  "list_all (\<lambda>r. list_all (\<lambda>c.
      (case rc_to_algebraic r c of Inl e \<Rightarrow> False | Inr s \<Rightarrow> algebraic_to_rc s = Inr (Some (r, c))))
      [0, 1, 2, 3, 4, 5, 6, 7]) [0, 1, 2, 3, 4, 5, 6, 7]"
  by code_simp

lemma parse_format_all:
  "list_all (\<lambda>f. list_all (\<lambda>d.
      rc_to_algebraic (8 - (int (of_char d) - 48)) (int (of_char f) - 97) = Inr [f, d])
      ''12345678'') ''abcdefgh''"
  by code_simp

lemma in_bounds_enum:
  "in_bounds r c \<Longrightarrow> r \<in> set [0, 1, 2, 3, 4, 5, 6, 7] \<and> c \<in> set [0, 1, 2, 3, 4, 5, 6, 7]"
  unfolding in_bounds_def by simp arith

lemma parsed_square_in_bounds:
  assumes "f \<in> set ''abcdefgh''" and "d \<in> set ''12345678''"
  shows "in_bounds (8 - (int (of_char d) - 48)) (int (of_char f) - 97)"
  using assms by (auto simp add: in_bounds_def)

subsection \<open>The move generators return, with squares of the board\<close>

lemma on_board_Nil: "on_board []"
  by (simp add: on_board_def)

lemma on_board_snoc: "on_board m \<Longrightarrow> in_bounds r c \<Longrightarrow> on_board (m @ [(r, c)])"
  by (simp add: on_board_def)

lemma king_loop_on_board:
  assumes "wf_board b"
  shows "on_board m \<Longrightarrow> \<exists>m'. king_loop self b r c ds m = Inr m' \<and> on_board m'"
proof (induction ds arbitrary: m)
  case Nil
  then show ?case by simp
next
  case (Cons d ds)
  obtain dr dc where d: "d = (dr, dc)" by (cases d)
  show ?case
  proof (cases "in_bounds (r + dr) (c + dc)")
    case True
    then obtain t where t: "at b (r + dr) (c + dc) = Inr t"
      using at_total [OF assms] by blast
    from Cons.prems True have "on_board (m @ [(r + dr, c + dc)])"
      by (rule on_board_snoc)
    with Cons.IH Cons.prems show ?thesis
      by (simp add: d t True)
  next
    case False
    with Cons.IH Cons.prems show ?thesis
      by (simp add: d)
  qed
qed

lemma knight_loop_on_board:
  assumes "wf_board b"
  shows "on_board m \<Longrightarrow> \<exists>m'. knight_loop self b r c ds m = Inr m' \<and> on_board m'"
proof (induction ds arbitrary: m)
  case Nil
  then show ?case by simp
next
  case (Cons d ds)
  obtain dr dc where d: "d = (dr, dc)" by (cases d)
  show ?case
  proof (cases "in_bounds (r + dr) (c + dc)")
    case True
    then obtain t where t: "at b (r + dr) (c + dc) = Inr t"
      using at_total [OF assms] by blast
    from Cons.prems True have "on_board (m @ [(r + dr, c + dc)])"
      by (rule on_board_snoc)
    with Cons.IH Cons.prems show ?thesis
      by (simp add: d t True)
  next
    case False
    with Cons.IH Cons.prems show ?thesis
      by (simp add: d)
  qed
qed

lemma pawn_loop_on_board:
  assumes "wf_board b"
  shows "on_board m \<Longrightarrow> \<exists>m'. pawn_loop self b r c ds m = Inr m' \<and> on_board m'"
proof (induction ds arbitrary: m)
  case Nil
  then show ?case by simp
next
  case (Cons dc ds)
  define d :: int where "d = (if color self = WHITE then -1 else 1)"
  show ?case
  proof (cases "in_bounds (r + d) (c + dc)")
    case True
    then obtain t where t: "at b (r + d) (c + dc) = Inr t"
      using at_total [OF assms] by blast
    from Cons.prems True have "on_board (m @ [(r + d, c + dc)])"
      by (rule on_board_snoc)
    with Cons.IH Cons.prems True t show ?thesis
      by (simp add: d_def)
  next
    case False
    with Cons.IH Cons.prems show ?thesis
      by (simp add: d_def)
  qed
qed

lemma pawn_forward_on_board:
  assumes "wf_board b"
  shows "\<exists>m. pawn_forward self b r c = Inr m \<and> on_board m"
proof -
  define d :: int where "d = (if color self = WHITE then -1 else 1)"
  define start :: int where "start = (if color self = WHITE then 6 else 1)"
  have unfold: "pawn_forward self b r c =
     (if in_bounds (r + d) c then
           (case at b (r + d) c of
              Inl e \<Rightarrow> Inl e
            | Inr (Some t) \<Rightarrow> Inr []
            | Inr None \<Rightarrow>
               if r = start \<and> in_bounds (r + 2 * d) c then
                 (case at b (r + 2 * d) c of
                    Inl e \<Rightarrow> Inl e
                  | Inr (Some t) \<Rightarrow> Inr [(r + d, c)]
                  | Inr None \<Rightarrow> Inr [(r + d, c), (r + 2 * d, c)])
               else Inr [(r + d, c)])
         else Inr [])"
    by (simp only: pawn_forward_def d_def start_def Let_def)
  show ?thesis
  proof (cases "in_bounds (r + d) c")
    case False
    then show ?thesis
      by (simp add: unfold on_board_def)
  next
    case one: True
    then obtain t where t: "at b (r + d) c = Inr t"
      using at_total [OF assms] by blast
    show ?thesis
    proof (cases t)
      case (Some q)
      with one t show ?thesis
        by (simp add: unfold on_board_def)
    next
      case None
      show ?thesis
      proof (cases "r = start \<and> in_bounds (r + 2 * d) c")
        case False
        then have "pawn_forward self b r c = Inr [(r + d, c)]"
          using one t None by (simp only: unfold if_True if_False sum.case option.case)
        with one show ?thesis
          by (simp add: on_board_def)
      next
        case True
        then obtain u where u: "at b (r + 2 * d) c = Inr u"
          using at_total [OF assms] by blast
        have "pawn_forward self b r c =
                (case u of None \<Rightarrow> Inr [(r + d, c), (r + 2 * d, c)] | Some q \<Rightarrow> Inr [(r + d, c)])"
        proof -
          from True have cond: "(r = start \<and> in_bounds (r + 2 * d) c) = True"
            by (rule eqTrueI)
          show ?thesis
            by (simp only: unfold one t None u cond if_True sum.case option.case)
        qed
        with one True show ?thesis
          by (cases u) (auto simp add: on_board_def)
      qed
    qed
  qed
qed

lemma line_walk_on_board:
  assumes wf: "wf_board b" and nz: "dr \<noteq> 0 \<or> dc \<noteq> 0"
  shows "on_board moves \<Longrightarrow>
         \<exists>ms. line_walk self b rr cc dr dc moves = Some (Inr ms) \<and> on_board ms"
proof (induction "if 0 < dr then nat (8 - rr) else if dr < 0 then nat (rr + 1)
                  else if 0 < dc then nat (8 - cc) else nat (cc + 1)"
       arbitrary: rr cc moves rule: less_induct)
  case less
  show ?case
  proof (cases "in_bounds rr cc")
    case False
    with less.prems show ?thesis
      by (subst line_walk.simps) simp
  next
    case True
    then obtain t where t: "at b rr cc = Inr t"
      using at_total [OF wf] by blast
    show ?thesis
    proof (cases t)
      case (Some q)
      with True t less.prems show ?thesis
        by (subst line_walk.simps) (simp add: on_board_snoc)
    next
      case None
      have smaller: "(if 0 < dr then nat (8 - (rr + dr)) else if dr < 0 then nat (rr + dr + 1)
                  else if 0 < dc then nat (8 - (cc + dc)) else nat (cc + dc + 1))
             < (if 0 < dr then nat (8 - rr) else if dr < 0 then nat (rr + 1)
                  else if 0 < dc then nat (8 - cc) else nat (cc + 1))"
        using True nz by (auto simp add: in_bounds_def)
      have "on_board (moves @ [(rr, cc)])"
        using less.prems True by (rule on_board_snoc)
      from less.hyps [OF smaller this]
      show ?thesis
        using True t None by (subst line_walk.simps) simp
    qed
  qed
qed

lemma line_loop_on_board:
  assumes wf: "wf_board b"
  shows "(0, 0) \<notin> set deltas \<Longrightarrow> on_board moves \<Longrightarrow>
         \<exists>ms. line_loop self b r c deltas moves = Some (Inr ms) \<and> on_board ms"
proof (induction deltas arbitrary: moves)
  case Nil
  then show ?case by simp
next
  case (Cons d deltas)
  obtain dr dc where d: "d = (dr, dc)" by (cases d)
  with Cons.prems have nz: "dr \<noteq> 0 \<or> dc \<noteq> 0" by auto
  from line_walk_on_board [OF wf nz Cons.prems(2)]
  obtain ms where ms: "line_walk self b (r + dr) (c + dc) dr dc moves = Some (Inr ms)" "on_board ms"
    by blast
  from Cons.prems have "(0, 0) \<notin> set deltas" by simp
  from Cons.IH [OF this ms(2)] show ?case
    by (simp add: d ms(1))
qed

lemma line_moves_on_board:
  assumes "wf_board b" and "(0, 0) \<notin> set deltas"
  shows "\<exists>ms. line_moves self b r c deltas = Some (Inr ms) \<and> on_board ms"
  unfolding line_moves_def using assms on_board_Nil by (rule line_loop_on_board)

lemma pseudo_legal_moves_on_board:
  assumes wf: "wf_board b"
  shows "\<exists>ms. pseudo_legal_moves self b r c = Some (Inr ms) \<and> on_board ms"
proof (cases "kind self")
  case King
  have "\<exists>m. king_moves self b r c = Inr m \<and> on_board m"
    unfolding king_moves_def using wf on_board_Nil by (rule king_loop_on_board)
  with King show ?thesis
    by (simp add: pseudo_legal_moves_def)
next
  case Queen
  then show ?thesis
    by (simp add: pseudo_legal_moves_def line_moves_on_board [OF wf])
next
  case Rook
  then show ?thesis
    by (simp add: pseudo_legal_moves_def line_moves_on_board [OF wf])
next
  case Bishop
  then show ?thesis
    by (simp add: pseudo_legal_moves_def line_moves_on_board [OF wf])
next
  case Knight
  have "\<exists>m. knight_moves self b r c = Inr m \<and> on_board m"
    unfolding knight_moves_def using wf on_board_Nil by (rule knight_loop_on_board)
  with Knight show ?thesis
    by (simp add: pseudo_legal_moves_def)
next
  case Pawn
  from pawn_forward_on_board [OF wf] obtain m where m: "pawn_forward self b r c = Inr m" "on_board m"
    by blast
  have "\<exists>ms. pawn_moves self b r c = Inr ms \<and> on_board ms"
    unfolding pawn_moves_def using pawn_loop_on_board [OF wf m(2)]
    by (simp only: m(1) sum.case)
  with Pawn show ?thesis
    by (simp add: pseudo_legal_moves_def)
qed

subsection \<open>The squares a pawn is given\<close>

lemma pawn_forward_unfold:
  "pawn_forward self b r c =
     (if in_bounds (r + pawn_dir (color self)) c then
           (case at b (r + pawn_dir (color self)) c of
              Inl e \<Rightarrow> Inl e
            | Inr (Some t) \<Rightarrow> Inr []
            | Inr None \<Rightarrow>
               if r = pawn_start (color self) \<and> in_bounds (r + 2 * pawn_dir (color self)) c then
                 (case at b (r + 2 * pawn_dir (color self)) c of
                    Inl e \<Rightarrow> Inl e
                  | Inr (Some t) \<Rightarrow> Inr [(r + pawn_dir (color self), c)]
                  | Inr None \<Rightarrow> Inr [(r + pawn_dir (color self), c), (r + 2 * pawn_dir (color self), c)])
               else Inr [(r + pawn_dir (color self), c)])
         else Inr [])"
  by (simp only: pawn_forward_def pawn_dir_def pawn_start_def Let_def)

lemma pawn_loop_unfold:
  "pawn_loop self b r c (dc # rest) m =
     (if in_bounds (r + pawn_dir (color self)) (c + dc) then
           (case at b (r + pawn_dir (color self)) (c + dc) of
              Inl e \<Rightarrow> Inl e
            | Inr t \<Rightarrow>
               if is_opponent self t then pawn_loop self b r c rest (m @ [(r + pawn_dir (color self), c + dc)])
               else pawn_loop self b r c rest m)
         else pawn_loop self b r c rest m)"
  by (simp only: pawn_loop.simps pawn_dir_def Let_def)

lemma pawn_forward_set:
  assumes wf: "wf_board b"
  shows "\<exists>m. pawn_forward self b r c = Inr m \<and>
           set m = {sq. sq = (r + pawn_dir (color self), c) \<and> in_bounds (r + pawn_dir (color self)) c \<and>
                        at b (r + pawn_dir (color self)) c = Inr None} \<union>
                   {sq. sq = (r + 2 * pawn_dir (color self), c) \<and> r = pawn_start (color self) \<and>
                        in_bounds (r + pawn_dir (color self)) c \<and>
                        at b (r + pawn_dir (color self)) c = Inr None \<and>
                        in_bounds (r + 2 * pawn_dir (color self)) c \<and>
                        at b (r + 2 * pawn_dir (color self)) c = Inr None}"
proof (cases "in_bounds (r + pawn_dir (color self)) c")
  case False
  then show ?thesis
    by (simp add: pawn_forward_unfold)
next
  case one: True
  then obtain t where t: "at b (r + pawn_dir (color self)) c = Inr t"
    using at_total [OF wf] by blast
  show ?thesis
  proof (cases t)
    case (Some q)
    with one t show ?thesis
      by (simp add: pawn_forward_unfold)
  next
    case None
    show ?thesis
    proof (cases "r = pawn_start (color self) \<and> in_bounds (r + 2 * pawn_dir (color self)) c")
      case False
      then have "pawn_forward self b r c = Inr [(r + pawn_dir (color self), c)]"
        using one t None by (simp only: pawn_forward_unfold if_True if_False sum.case option.case)
      with one t None False show ?thesis
        by auto
    next
      case True
      then obtain u where u: "at b (r + 2 * pawn_dir (color self)) c = Inr u"
        using at_total [OF wf] by blast
      from True have cond: "(r = pawn_start (color self) \<and> in_bounds (r + 2 * pawn_dir (color self)) c) = True"
        by (rule eqTrueI)
      have "pawn_forward self b r c =
              (case u of None \<Rightarrow> Inr [(r + pawn_dir (color self), c), (r + 2 * pawn_dir (color self), c)]
               | Some q \<Rightarrow> Inr [(r + pawn_dir (color self), c)])"
        by (simp only: pawn_forward_unfold one t None u cond if_True sum.case option.case)
      with one t None True u show ?thesis
        by (cases u) auto
    qed
  qed
qed

lemma pawn_loop_set:
  assumes wf: "wf_board b"
  shows "\<exists>m'. pawn_loop self b r c ds m = Inr m' \<and>
           set m' = set m \<union>
             {sq. \<exists>dc\<in>set ds. sq = (r + pawn_dir (color self), c + dc) \<and>
                    in_bounds (r + pawn_dir (color self)) (c + dc) \<and>
                    (\<exists>t. at b (r + pawn_dir (color self)) (c + dc) = Inr (Some t) \<and> color t \<noteq> color self)}"
proof (induction ds arbitrary: m)
  case Nil
  show ?case by simp
next
  case (Cons dc ds)
  show ?case
  proof (cases "in_bounds (r + pawn_dir (color self)) (c + dc)")
    case False
    with Cons [of m] show ?thesis
      by (subst pawn_loop_unfold) auto
  next
    case True
    then obtain t where t: "at b (r + pawn_dir (color self)) (c + dc) = Inr t"
      using at_total [OF wf] by blast
    show ?thesis
    proof (cases "is_opponent self t")
      case opp: True
      then have "\<exists>q. at b (r + pawn_dir (color self)) (c + dc) = Inr (Some q) \<and> color q \<noteq> color self"
        using t by (cases t) (simp_all add: is_opponent_def)
      with Cons [of "m @ [(r + pawn_dir (color self), c + dc)]"] True t opp show ?thesis
        by (subst pawn_loop_unfold) auto
    next
      case nopp: False
      then have "\<not> (\<exists>q. at b (r + pawn_dir (color self)) (c + dc) = Inr (Some q) \<and> color q \<noteq> color self)"
        using t by (cases t) (simp_all add: is_opponent_def)
      with Cons [of m] True t nopp show ?thesis
        by (subst pawn_loop_unfold) auto
    qed
  qed
qed

lemma pawn_moves_set:
  assumes wf: "wf_board b" and pawn: "kind self = Pawn"
  shows "\<exists>ms. pseudo_legal_moves self b r c = Some (Inr ms) \<and>
           set ms =
             {sq. sq = (r + pawn_dir (color self), c) \<and> in_bounds (r + pawn_dir (color self)) c \<and>
                  at b (r + pawn_dir (color self)) c = Inr None} \<union>
             {sq. sq = (r + 2 * pawn_dir (color self), c) \<and> r = pawn_start (color self) \<and>
                  in_bounds (r + pawn_dir (color self)) c \<and>
                  at b (r + pawn_dir (color self)) c = Inr None \<and>
                  in_bounds (r + 2 * pawn_dir (color self)) c \<and>
                  at b (r + 2 * pawn_dir (color self)) c = Inr None} \<union>
             {sq. \<exists>dc\<in>{-1, 1}. sq = (r + pawn_dir (color self), c + dc) \<and>
                    in_bounds (r + pawn_dir (color self)) (c + dc) \<and>
                    (\<exists>t. at b (r + pawn_dir (color self)) (c + dc) = Inr (Some t) \<and> color t \<noteq> color self)}"
proof -
  from pawn_forward_set [OF wf, of self r c] obtain m where
    m: "pawn_forward self b r c = Inr m" and
    sm: "set m = {sq. sq = (r + pawn_dir (color self), c) \<and> in_bounds (r + pawn_dir (color self)) c \<and>
                        at b (r + pawn_dir (color self)) c = Inr None} \<union>
                   {sq. sq = (r + 2 * pawn_dir (color self), c) \<and> r = pawn_start (color self) \<and>
                        in_bounds (r + pawn_dir (color self)) c \<and>
                        at b (r + pawn_dir (color self)) c = Inr None \<and>
                        in_bounds (r + 2 * pawn_dir (color self)) c \<and>
                        at b (r + 2 * pawn_dir (color self)) c = Inr None}"
    by blast
  from pawn_loop_set [OF wf, of self r c "[-1, 1]" m] obtain ms where
    ms: "pawn_loop self b r c [-1, 1] m = Inr ms" and
    sms: "set ms = set m \<union>
             {sq. \<exists>dc\<in>set [-1, 1]. sq = (r + pawn_dir (color self), c + dc) \<and>
                    in_bounds (r + pawn_dir (color self)) (c + dc) \<and>
                    (\<exists>t. at b (r + pawn_dir (color self)) (c + dc) = Inr (Some t) \<and> color t \<noteq> color self)}"
    by blast
  have "pseudo_legal_moves self b r c = Some (Inr ms)"
    by (simp only: pseudo_legal_moves_def pawn kind.case pawn_moves_def m sum.case ms)
  moreover have "set [-1, 1 :: int] = {-1, 1}"
    by simp
  ultimately show ?thesis
    using sms sm by (simp only:) blast
qed

subsection \<open>The squares a sliding piece is given\<close>

lemma walk_squares_outside: "\<not> in_bounds rr cc \<Longrightarrow> walk_squares self b rr cc dr dc = {}"
proof -
  assume out: "\<not> in_bounds rr cc"
  have "\<not> walk_reach self b rr cc dr dc k" for k
    using out by (cases k) simp_all
  then show ?thesis
    by (simp add: walk_squares_def)
qed

lemma walk_squares_piece:
  assumes "in_bounds rr cc" and "at b rr cc = Inr (Some t)"
  shows "walk_squares self b rr cc dr dc = (if color t \<noteq> color self then {(rr, cc)} else {})"
proof -
  have "walk_reach self b rr cc dr dc k \<longleftrightarrow> k = 0 \<and> color t \<noteq> color self" for k
    using assms by (cases k) simp_all
  then show ?thesis
    by (auto simp add: walk_squares_def)
qed

lemma walk_squares_empty:
  assumes "in_bounds rr cc" and "at b rr cc = Inr None"
  shows "walk_squares self b rr cc dr dc = insert (rr, cc) (walk_squares self b (rr + dr) (cc + dc) dr dc)"
proof (rule set_eqI)
  fix sq
  show "sq \<in> walk_squares self b rr cc dr dc \<longleftrightarrow>
        sq \<in> insert (rr, cc) (walk_squares self b (rr + dr) (cc + dc) dr dc)"
  proof
    assume "sq \<in> walk_squares self b rr cc dr dc"
    then obtain k where k: "walk_reach self b rr cc dr dc k" "sq = (rr + int k * dr, cc + int k * dc)"
      by (auto simp add: walk_squares_def)
    show "sq \<in> insert (rr, cc) (walk_squares self b (rr + dr) (cc + dc) dr dc)"
    proof (cases k)
      case 0
      with k show ?thesis by simp
    next
      case (Suc n)
      with k have "walk_reach self b (rr + dr) (cc + dc) dr dc n"
        "sq = (rr + dr + int n * dr, cc + dc + int n * dc)"
        by (simp_all add: algebra_simps)
      then show ?thesis
        by (auto simp add: walk_squares_def)
    qed
  next
    assume "sq \<in> insert (rr, cc) (walk_squares self b (rr + dr) (cc + dc) dr dc)"
    then consider "sq = (rr, cc)" | "sq \<in> walk_squares self b (rr + dr) (cc + dc) dr dc"
      by blast
    then show "sq \<in> walk_squares self b rr cc dr dc"
    proof cases
      case 1
      have "walk_reach self b rr cc dr dc 0"
        using assms by simp
      with 1 show ?thesis
        unfolding walk_squares_def by (intro CollectI exI [of _ 0]) simp
    next
      case 2
      then obtain n where n: "walk_reach self b (rr + dr) (cc + dc) dr dc n"
        "sq = (rr + dr + int n * dr, cc + dc + int n * dc)"
        by (auto simp add: walk_squares_def)
      have "walk_reach self b rr cc dr dc (Suc n)"
        using assms n(1) by simp
      moreover have "sq = (rr + int (Suc n) * dr, cc + int (Suc n) * dc)"
        using n(2) by (simp add: algebra_simps)
      ultimately show ?thesis
        unfolding walk_squares_def by blast
    qed
  qed
qed

lemma line_walk_set:
  assumes wf: "wf_board b" and nz: "dr \<noteq> 0 \<or> dc \<noteq> 0"
  shows "\<exists>ms. line_walk self b rr cc dr dc moves = Some (Inr ms) \<and>
           set ms = set moves \<union> walk_squares self b rr cc dr dc"
proof (induction "if 0 < dr then nat (8 - rr) else if dr < 0 then nat (rr + 1)
                  else if 0 < dc then nat (8 - cc) else nat (cc + 1)"
       arbitrary: rr cc moves rule: less_induct)
  case less
  show ?case
  proof (cases "in_bounds rr cc")
    case False
    then show ?thesis
      by (subst line_walk.simps) (simp add: walk_squares_outside)
  next
    case True
    then obtain t where t: "at b rr cc = Inr t"
      using at_total [OF wf] by blast
    show ?thesis
    proof (cases t)
      case (Some q)
      with True t show ?thesis
        by (subst line_walk.simps) (simp add: walk_squares_piece is_opponent_def)
    next
      case None
      have smaller: "(if 0 < dr then nat (8 - (rr + dr)) else if dr < 0 then nat (rr + dr + 1)
                  else if 0 < dc then nat (8 - (cc + dc)) else nat (cc + dc + 1))
             < (if 0 < dr then nat (8 - rr) else if dr < 0 then nat (rr + 1)
                  else if 0 < dc then nat (8 - cc) else nat (cc + 1))"
        using True nz by (auto simp add: in_bounds_def)
      from less [OF smaller, of "moves @ [(rr, cc)]"] obtain ms where
        ms: "line_walk self b (rr + dr) (cc + dc) dr dc (moves @ [(rr, cc)]) = Some (Inr ms)"
          "set ms = set (moves @ [(rr, cc)]) \<union> walk_squares self b (rr + dr) (cc + dc) dr dc"
        by blast
      have "line_walk self b rr cc dr dc moves = Some (Inr ms)"
        using True t None ms(1) by (subst line_walk.simps) simp
      moreover have "set ms = set moves \<union> walk_squares self b rr cc dr dc"
        using True t None ms(2) by (simp add: walk_squares_empty)
      ultimately show ?thesis
        by blast
    qed
  qed
qed

lemma line_loop_set:
  assumes wf: "wf_board b"
  shows "(0, 0) \<notin> set deltas \<Longrightarrow>
         \<exists>ms. line_loop self b r c deltas moves = Some (Inr ms) \<and>
           set ms = set moves \<union>
             (\<Union>d\<in>set deltas. walk_squares self b (r + fst d) (c + snd d) (fst d) (snd d))"
proof (induction deltas arbitrary: moves)
  case Nil
  then show ?case by simp
next
  case (Cons d deltas)
  obtain dr dc where d: "d = (dr, dc)" by (cases d)
  with Cons.prems have nz: "dr \<noteq> 0 \<or> dc \<noteq> 0" by auto
  from line_walk_set [OF wf nz, of self "r + dr" "c + dc" moves]
  obtain ms where ms: "line_walk self b (r + dr) (c + dc) dr dc moves = Some (Inr ms)"
    "set ms = set moves \<union> walk_squares self b (r + dr) (c + dc) dr dc"
    by blast
  from Cons.prems have "(0, 0) \<notin> set deltas" by simp
  from Cons.IH [OF this, of ms] obtain ms' where
    ms': "line_loop self b r c deltas ms = Some (Inr ms')"
      "set ms' = set ms \<union>
             (\<Union>d\<in>set deltas. walk_squares self b (r + fst d) (c + snd d) (fst d) (snd d))"
    by blast
  have "line_loop self b r c (d # deltas) moves = Some (Inr ms')"
    by (simp add: d ms(1) ms'(1))
  moreover have "set ms' = set moves \<union>
             (\<Union>d\<in>set (d # deltas). walk_squares self b (r + fst d) (c + snd d) (fst d) (snd d))"
    using ms(2) ms'(2) by (auto simp add: d)
  ultimately show ?case
    by blast
qed

lemma walk_reach_closed:
  "walk_reach self b rr cc dr dc k \<longleftrightarrow>
     (\<forall>j<k. in_bounds (rr + int j * dr) (cc + int j * dc) \<and>
            at b (rr + int j * dr) (cc + int j * dc) = Inr None) \<and>
     in_bounds (rr + int k * dr) (cc + int k * dc) \<and>
     (case at b (rr + int k * dr) (cc + int k * dc) of
        Inl e \<Rightarrow> False | Inr None \<Rightarrow> True | Inr (Some t) \<Rightarrow> color t \<noteq> color self)"
proof (induction k arbitrary: rr cc)
  case 0
  show ?case by simp
next
  case (Suc k)
  have shift: "rr + dr + int j * dr = rr + int (Suc j) * dr" "cc + dc + int j * dc = cc + int (Suc j) * dc"
    for j
    by (simp_all add: algebra_simps)
  show ?case
    unfolding walk_reach.simps Suc.IH shift All_less_Suc2 by simp
qed

lemma slide_reach_walk:
  "slide_reach self b r c (dr, dc) k \<longleftrightarrow>
     (\<exists>n. k = Suc n \<and> walk_reach self b (r + dr) (c + dc) dr dc n)"
proof (cases k)
  case 0
  then show ?thesis
    by (simp add: slide_reach_def)
next
  case (Suc n)
  have shift: "r + dr + int j * dr = r + int (Suc j) * dr" "c + dc + int j * dc = c + int (Suc j) * dc"
    for j
    by (simp_all add: algebra_simps)
  have range: "(\<forall>j\<in>{1..<Suc n}. P j) \<longleftrightarrow> (\<forall>j<n. P (Suc j))" for P
  proof
    assume a: "\<forall>j\<in>{1..<Suc n}. P j"
    show "\<forall>j<n. P (Suc j)"
    proof (intro allI impI)
      fix j assume "j < n"
      then have "Suc j \<in> {1..<Suc n}" by simp
      with a show "P (Suc j)" by blast
    qed
  next
    assume a: "\<forall>j<n. P (Suc j)"
    show "\<forall>j\<in>{1..<Suc n}. P j"
    proof
      fix j assume "j \<in> {1..<Suc n}"
      then obtain i where "j = Suc i" "i < n"
        by (cases j) simp_all
      with a show "P j" by simp
    qed
  qed
  show ?thesis
    unfolding Suc slide_reach_def walk_reach_closed shift range fst_conv snd_conv by simp
qed

lemma walk_squares_slide:
  "walk_squares self b (r + dr) (c + dc) dr dc =
     {sq. \<exists>k. slide_reach self b r c (dr, dc) k \<and> sq = (r + int k * dr, c + int k * dc)}"
proof (rule set_eqI)
  fix sq
  have shift: "r + dr + int n * dr = r + int (Suc n) * dr" "c + dc + int n * dc = c + int (Suc n) * dc"
    for n
    by (simp_all add: algebra_simps)
  show "sq \<in> walk_squares self b (r + dr) (c + dc) dr dc \<longleftrightarrow>
        sq \<in> {sq. \<exists>k. slide_reach self b r c (dr, dc) k \<and> sq = (r + int k * dr, c + int k * dc)}"
    unfolding walk_squares_def slide_reach_walk mem_Collect_eq shift by blast
qed

lemma line_moves_set:
  assumes wf: "wf_board b" and nz: "(0, 0) \<notin> set deltas"
  shows "\<exists>ms. line_moves self b r c deltas = Some (Inr ms) \<and>
           (\<forall>sq. sq \<in> set ms \<longleftrightarrow>
              (\<exists>d\<in>set deltas. \<exists>k. slide_reach self b r c d k \<and>
                 sq = (r + int k * fst d, c + int k * snd d)))"
proof -
  from line_loop_set [OF wf nz, of self r c "[]"] obtain ms where
    ms: "line_loop self b r c deltas [] = Some (Inr ms)"
      "set ms = (\<Union>d\<in>set deltas. walk_squares self b (r + fst d) (c + snd d) (fst d) (snd d))"
    by auto
  have "walk_squares self b (r + fst d) (c + snd d) (fst d) (snd d) =
          {sq. \<exists>k. slide_reach self b r c d k \<and> sq = (r + int k * fst d, c + int k * snd d)}" for d
    using walk_squares_slide [of self b r "fst d" c "snd d"] by simp
  with ms(2) have "\<forall>sq. sq \<in> set ms \<longleftrightarrow>
              (\<exists>d\<in>set deltas. \<exists>k. slide_reach self b r c d k \<and>
                 sq = (r + int k * fst d, c + int k * snd d))"
    by simp
  with ms(1) show ?thesis
    by (simp add: line_moves_def)
qed

lemma sliding_moves_set:
  assumes wf: "wf_board b" and slider: "kind self \<in> {Queen, Rook, Bishop}"
  shows "\<exists>ms. pseudo_legal_moves self b r c = Some (Inr ms) \<and>
           (\<forall>sq. sq \<in> set ms \<longleftrightarrow>
              (\<exists>d\<in>set (directions (kind self)). \<exists>k. slide_reach self b r c d k \<and>
                 sq = (r + int k * fst d, c + int k * snd d)))"
proof -
  have nz: "(0, 0) \<notin> set (directions (kind self))"
    using slider by (auto simp add: directions_def)
  have "pseudo_legal_moves self b r c = line_moves self b r c (directions (kind self))"
    using slider by (auto simp add: pseudo_legal_moves_def directions_def)
  with line_moves_set [OF wf nz, of self r c] show ?thesis
    by simp
qed

lemma rook_d4_towards_d8:
  assumes char: "\<forall>sq. sq \<in> set ms \<longleftrightarrow>
              (\<exists>d\<in>set (directions Rook). \<exists>k. slide_reach self b 4 3 d k \<and>
                 sq = (4 + int k * fst d, 3 + int k * snd d))"
    and row: "0 \<le> rr" "rr < 4"
  shows "(rr, 3) \<in> set ms \<longleftrightarrow> slide_reach self b 4 3 (-1, 0) (nat (4 - rr))"
proof
  assume "(rr, 3) \<in> set ms"
  with char obtain d k where d: "d \<in> set (directions Rook)" and k: "slide_reach self b 4 3 d k"
    and sq: "(rr, 3) = (4 + int k * fst d, 3 + int k * snd d)"
    by blast
  from k have k1: "1 \<le> k" by (simp add: slide_reach_def)
  from d sq k1 row have "d = (-1, 0) \<and> k = nat (4 - rr)"
    by (auto simp add: directions_def)
  with k show "slide_reach self b 4 3 (-1, 0) (nat (4 - rr))" by simp
next
  assume a: "slide_reach self b 4 3 (-1, 0) (nat (4 - rr))"
  have "(-1, 0) \<in> set (directions Rook)"
    by (simp add: directions_def)
  moreover have "(rr, 3) = (4 + int (nat (4 - rr)) * fst (-1 :: int, 0 :: int), 3 + int (nat (4 - rr)) * snd (-1 :: int, 0 :: int))"
    using row by simp
  ultimately show "(rr, 3) \<in> set ms"
    using char a by blast
qed

lemma slide_d4_d5: "slide_reach self b 4 3 (-1, 0) (nat (4 - 3)) \<longleftrightarrow>
    (case at b 3 3 of Inl e \<Rightarrow> False | Inr None \<Rightarrow> True | Inr (Some t) \<Rightarrow> color t \<noteq> color self)"
  by (simp add: slide_reach_def in_bounds_def)

lemma slide_d4_d6: "slide_reach self b 4 3 (-1, 0) (nat (4 - 2)) \<longleftrightarrow>
    at b 3 3 = Inr None \<and>
    (case at b 2 3 of Inl e \<Rightarrow> False | Inr None \<Rightarrow> True | Inr (Some t) \<Rightarrow> color t \<noteq> color self)"
proof -
  have "{1..<2::nat} = {1}" by auto
  then show ?thesis
    by (simp add: slide_reach_def in_bounds_def)
qed

lemma slide_d4_beyond_d6:
  assumes "at b 2 3 = Inr (Some t)" and "rr = 1 \<or> rr = 0"
  shows "\<not> slide_reach self b 4 3 (-1, 0) (nat (4 - rr))"
proof
  assume a: "slide_reach self b 4 3 (-1, 0) (nat (4 - rr))"
  from assms(2) have "2 \<in> {1..<nat (4 - rr)}" by auto
  with a have "at b (4 + int 2 * fst (-1 :: int, 0 :: int)) (3 + int 2 * snd (-1 :: int, 0 :: int)) = Inr None"
    unfolding slide_reach_def by blast
  with assms(1) show False by simp
qed

lemma wf_rook_d4: "wf_board (rook_d4 col)"
  by (simp add: wf_board_def rook_d4_def)

subsection \<open>The outcomes of move\<close>

lemma pseudo_legal_moves_total:
  "wf_board b \<Longrightarrow> \<exists>ms. pseudo_legal_moves self b r c = Some (Inr ms)"
  using pseudo_legal_moves_on_board by blast

text \<open>The three ways in which move refuses, and what it does otherwise.\<close>

lemma move_vacant: "at b r1 c1 = Inr None \<Longrightarrow> move b (r1, c1) (r2, c2) = Some (Inr ((False, []), b))"
  by (simp add: move_def)

lemma move_own_piece:
  "at b r1 c1 = Inr (Some p) \<Longrightarrow> at b r2 c2 = Inr (Some q) \<Longrightarrow> color q = color p \<Longrightarrow>
   move b (r1, c1) (r2, c2) = Some (Inr ((False, []), b))"
  by (simp add: move_def)

lemma move_not_listed:
  "at b r1 c1 = Inr (Some p) \<Longrightarrow> at b r2 c2 = Inr t \<Longrightarrow>
   pseudo_legal_moves p b r1 c1 = Some (Inr ms) \<Longrightarrow> (r2, c2) \<notin> set ms \<Longrightarrow>
   move b (r1, c1) (r2, c2) = Some (Inr ((False, []), b))"
  by (simp add: move_def)

lemma move_applied:
  assumes wf: "wf_board b" and src: "in_bounds r1 c1" and dst: "in_bounds r2 c2"
    and p: "at b r1 c1 = Inr (Some p)" and t: "at b r2 c2 = Inr t"
    and free: "\<not> (case t of None \<Rightarrow> False | Some q \<Rightarrow> color q = color p)"
    and ms: "pseudo_legal_moves p b r1 c1 = Some (Inr ms)" and listed: "(r2, c2) \<in> set ms"
  shows "\<exists>b'. move b (r1, c1) (r2, c2) = Some (Inr ((True, []), b')) \<and> wf_board b' \<and>
           (\<forall>r c. in_bounds r c \<longrightarrow>
              at b' r c = (if r = r2 \<and> c = c2 then Inr (Some (promoted p r2))
                           else if r = r1 \<and> c = c1 then Inr None else at b r c))"
proof -
  have differ: "\<not> (r1 = r2 \<and> c1 = c2)"
    using p t free by auto
  from set_cell_effect [OF wf dst, of "Some p"] obtain b1 where
    b1: "set_cell b r2 c2 (Some p) = Inr b1" "wf_board b1"
      "\<And>r c. in_bounds r c \<Longrightarrow> at b1 r c = (if r = r2 \<and> c = c2 then Inr (Some p) else at b r c)"
    by blast
  from set_cell_effect [OF b1(2) src, of None] obtain b2 where
    b2: "set_cell b1 r1 c1 None = Inr b2" "wf_board b2"
      "\<And>r c. in_bounds r c \<Longrightarrow> at b2 r c = (if r = r1 \<and> c = c1 then Inr None else at b1 r c)"
    by blast
  from set_cell_effect [OF b2(2) dst, of "Some (Piece Queen (color p))"] obtain b3 where
    b3: "set_cell b2 r2 c2 (Some (Piece Queen (color p))) = Inr b3" "wf_board b3"
      "\<And>r c. in_bounds r c \<Longrightarrow>
         at b3 r c = (if r = r2 \<and> c = c2 then Inr (Some (Piece Queen (color p))) else at b2 r c)"
    by blast
  show ?thesis
  proof (cases "kind p = Pawn \<and> ((color p = WHITE \<and> r2 = 0) \<or> (color p = BLACK \<and> r2 = 7))")
    case True
    then have res: "move b (r1, c1) (r2, c2) = Some (Inr ((True, []), b3))"
      using p t free ms listed b1(1) b2(1) b3(1) by (simp add: move_def)
    have "at b3 r c = (if r = r2 \<and> c = c2 then Inr (Some (promoted p r2))
                           else if r = r1 \<and> c = c1 then Inr None else at b r c)"
      if "in_bounds r c" for r c
      using that True differ src dst by (auto simp add: b3(3) b2(3) b1(3) promoted_def)
    with res b3(2) show ?thesis by blast
  next
    case False
    then have res: "move b (r1, c1) (r2, c2) = Some (Inr ((True, []), b2))"
      using p t free ms listed b1(1) b2(1) by (auto simp add: move_def)
    have "at b2 r c = (if r = r2 \<and> c = c2 then Inr (Some (promoted p r2))
                           else if r = r1 \<and> c = c1 then Inr None else at b r c)"
      if "in_bounds r c" for r c
      using that False differ src dst by (auto simp add: b2(3) b1(3) promoted_def)
    with res b2(2) show ?thesis by blast
  qed
qed

lemma wf_start_position: "wf_board start_position"
  by (simp add: wf_board_def start_position_def back_rank_def)

lemma wf_pawn_on_a7: "wf_board pawn_on_a7"
  by (simp add: wf_board_def pawn_on_a7_def)

text \<open>A refusal returns the board it was given.\<close>

lemma move_refusal_keeps_board:
  assumes mv: "move b (r1, c1) (r2, c2) = Some (Inr ((False, msg), b'))"
  shows "b' = b"
proof (cases "at b r1 c1")
  case (Inl e)
  with mv show ?thesis by (simp add: move_def)
next
  case (Inr po)
  show ?thesis
  proof (cases po)
    case None
    with Inr mv show ?thesis by (simp add: move_def)
  next
    case (Some p)
    with Inr have p: "at b r1 c1 = Inr (Some p)" by simp
    show ?thesis
    proof (cases "at b r2 c2")
      case (Inl e)
      with p mv show ?thesis by (simp add: move_def)
    next
      case t: (Inr t)
      show ?thesis
      proof (cases "case t of None \<Rightarrow> False | Some q \<Rightarrow> color q = color p")
        case True
        with p t mv show ?thesis by (simp add: move_def)
      next
        case free: False
        show ?thesis
        proof (cases "pseudo_legal_moves p b r1 c1")
          case None
          with p t free mv show ?thesis by (simp add: move_def)
        next
          case res: (Some res)
          show ?thesis
          proof (cases res)
            case (Inl e)
            with p t free res mv show ?thesis by (simp add: move_def)
          next
            case ms: (Inr ms)
            show ?thesis
            proof (cases "(r2, c2) \<in> set ms")
              case False
              with p t free res ms mv show ?thesis by (simp add: move_def)
            next
              case True
              with p t free res ms mv show ?thesis
                by (simp add: move_def split: sum.splits if_splits)
            qed
          qed
        qed
      qed
    qed
  qed
qed

subsection \<open>The example positions\<close>

lemma move_e2e4: "move start_position (6, 4) (4, 4) = Some (Inr ((True, []), after_e2e4))"
  by code_simp

lemma new_board_value: "new_board = Inr start_position"
  by code_simp

lemma new_game_value: "new_game = Inr start_game"
  by code_simp

subsection \<open>The command loop\<close>

lemma algebraic_to_rc_returns: "\<exists>res. algebraic_to_rc s = Inr res"
  by (simp add: algebraic_to_rc_cases)

lemma algebraic_to_rc_in_bounds:
  assumes "algebraic_to_rc s = Inr (Some (r, c))"
  shows "in_bounds r c"
proof -
  from assms have v: "valid_name (normalize s)"
    and r: "r = 8 - (int (of_char (normalize s ! 1)) - 48)"
    and c: "c = int (of_char (normalize s ! 0)) - 97"
    by (simp_all add: algebraic_to_rc_cases split: if_splits)
  from v have "normalize s ! 0 \<in> set ''abcdefgh''" "normalize s ! 1 \<in> set ''12345678''"
    by (simp_all add: valid_name_def del: set_simps)
  then show ?thesis
    unfolding r c by (rule parsed_square_in_bounds)
qed

lemma move_outcome:
  assumes wf: "wf_board b" and src: "in_bounds r1 c1" and dst: "in_bounds r2 c2"
  shows "move b (r1, c1) (r2, c2) = Some (Inr ((False, []), b)) \<or>
         (\<exists>b'. move b (r1, c1) (r2, c2) = Some (Inr ((True, []), b')) \<and> wf_board b')"
proof -
  from at_total [OF wf src] obtain po where po: "at b r1 c1 = Inr po" by blast
  from at_total [OF wf dst] obtain t where t: "at b r2 c2 = Inr t" by blast
  show ?thesis
  proof (cases po)
    case None
    with po show ?thesis by (simp add: move_vacant)
  next
    case (Some p)
    with po have p: "at b r1 c1 = Inr (Some p)" by simp
    from pseudo_legal_moves_total [OF wf] obtain ms where
      ms: "pseudo_legal_moves p b r1 c1 = Some (Inr ms)" by blast
    show ?thesis
    proof (cases "case t of None \<Rightarrow> False | Some q \<Rightarrow> color q = color p")
      case True
      then obtain q where "t = Some q" "color q = color p"
        by (cases t) simp_all
      with p t show ?thesis by (simp add: move_own_piece)
    next
      case free: False
      show ?thesis
      proof (cases "(r2, c2) \<in> set ms")
        case False
        with p t ms show ?thesis by (simp add: move_not_listed)
      next
        case True
        from move_applied [OF wf src dst p t free ms True] show ?thesis by blast
      qed
    qed
  qed
qed

lemma apply_move_vacant:
  "at (board g) (fst src) (snd src) = Inr None \<Longrightarrow> apply_move g p0 p1 src dst = Some (Inr g)"
  by (simp add: apply_move_def)

lemma apply_move_not_owned:
  "at (board g) (fst src) (snd src) = Inr (Some p) \<Longrightarrow> color p \<noteq> turn g \<Longrightarrow>
   apply_move g p0 p1 src dst = Some (Inr g)"
  by (simp add: apply_move_def)

lemma apply_move_rejected:
  "at (board g) (fst src) (snd src) = Inr (Some p) \<Longrightarrow> color p = turn g \<Longrightarrow>
   move (board g) src dst = Some (Inr ((False, msg), board g)) \<Longrightarrow>
   apply_move g p0 p1 src dst = Some (Inr g)"
  by (simp add: apply_move_def)

lemma apply_move_done:
  "at (board g) (fst src) (snd src) = Inr (Some p) \<Longrightarrow> color p = turn g \<Longrightarrow>
   move (board g) src dst = Some (Inr ((True, msg), b')) \<Longrightarrow>
   apply_move g p0 p1 src dst =
     Some (Inr (g\<lparr>board := b', turn := other (turn g), history := history g @ [p0 @ '' -> '' @ p1]\<rparr>))"
  by (simp add: apply_move_def switch_turn_def)

lemma apply_move_outcome:
  assumes wf: "wf_board (board g)" and src: "in_bounds (fst src) (snd src)"
    and dst: "in_bounds (fst dst) (snd dst)"
  shows "\<exists>g'. apply_move g p0 p1 src dst = Some (Inr g') \<and>
           (if (\<exists>p. at (board g) (fst src) (snd src) = Inr (Some p) \<and> color p = turn g) \<and>
               (\<exists>b'. move (board g) src dst = Some (Inr ((True, []), b')))
            then turn g' = other (turn g) \<and> history g' = history g @ [p0 @ '' -> '' @ p1] \<and>
                 running g' = running g \<and>
                 move (board g) src dst = Some (Inr ((True, []), board g'))
            else g' = g \<and>
                 (at (board g) (fst src) (snd src) = Inr None \<or>
                  (\<exists>p. at (board g) (fst src) (snd src) = Inr (Some p) \<and> color p \<noteq> turn g) \<or>
                  move (board g) src dst = Some (Inr ((False, []), board g))))"
proof -
  obtain r1 c1 r2 c2 where sq: "src = (r1, c1)" "dst = (r2, c2)"
    by (cases src, cases dst)
  from src dst have inb: "in_bounds r1 c1" "in_bounds r2 c2"
    by (simp_all add: sq)
  from at_total [OF wf inb(1)] obtain po where po: "at (board g) (fst src) (snd src) = Inr po"
    by (auto simp add: sq)
  show ?thesis
  proof (cases po)
    case None
    with po have "at (board g) (fst src) (snd src) = Inr None" by simp
    then show ?thesis
      by (simp add: apply_move_vacant)
  next
    case (Some p)
    with po have p: "at (board g) (fst src) (snd src) = Inr (Some p)" by simp
    show ?thesis
    proof (cases "color p = turn g")
      case False
      with p show ?thesis
        by (simp add: apply_move_not_owned)
    next
      case own: True
      from move_outcome [OF wf inb] consider
        (rejected) "move (board g) src dst = Some (Inr ((False, []), board g))"
        | (applied) b' where "move (board g) src dst = Some (Inr ((True, []), b'))"
        unfolding sq by blast
      then show ?thesis
      proof cases
        case rejected
        with p own show ?thesis
          by (simp add: apply_move_rejected)
      next
        case applied
        with p own show ?thesis
          by (simp add: apply_move_done)
      qed
    qed
  qed
qed

lemma move_command_short: "length (py_split raw) \<noteq> 2 \<Longrightarrow> move_command g raw = Some (Inr g)"
  by (simp add: move_command_def Let_def)

lemma move_command_two:
  assumes "py_split raw = [p0, p1]"
  shows "move_command g raw =
     (case algebraic_to_rc p0 of
        Inl e \<Rightarrow> Some (Inl e)
      | Inr src \<Rightarrow>
         (case algebraic_to_rc p1 of
            Inl e \<Rightarrow> Some (Inl e)
          | Inr dst \<Rightarrow>
             (case src of
                None \<Rightarrow> Some (Inr g)
              | Some s \<Rightarrow> (case dst of None \<Rightarrow> Some (Inr g) | Some d \<Rightarrow> apply_move g p0 p1 s d))))"
  by (simp add: move_command_def Let_def assms py_index_def)

lemma move_command_outcome:
  assumes wf: "wf_board (board g)"
  shows "\<exists>g'. move_command g raw = Some (Inr g') \<and>
           (g' = g \<or>
            (\<exists>p0 p1 src dst. py_split raw = [p0, p1] \<and>
               algebraic_to_rc p0 = Inr (Some src) \<and> algebraic_to_rc p1 = Inr (Some dst) \<and>
               (\<exists>p. at (board g) (fst src) (snd src) = Inr (Some p) \<and> color p = turn g) \<and>
               move (board g) src dst = Some (Inr ((True, []), board g')) \<and>
               turn g' = other (turn g) \<and> history g' = history g @ [p0 @ '' -> '' @ p1] \<and>
               running g' = running g))"
proof (cases "length (py_split raw) = 2")
  case False
  then show ?thesis
    by (simp add: move_command_short)
next
  case True
  then obtain p0 p1 where parts: "py_split raw = [p0, p1]"
    by (cases "py_split raw"; cases "tl (py_split raw)") auto
  from algebraic_to_rc_returns obtain src where src: "algebraic_to_rc p0 = Inr src" by blast
  from algebraic_to_rc_returns obtain dst where dst: "algebraic_to_rc p1 = Inr dst" by blast
  show ?thesis
  proof (cases src)
    case None
    with src dst show ?thesis
      by (simp add: move_command_two [OF parts])
  next
    case s: (Some s)
    show ?thesis
    proof (cases dst)
      case None
      with s src dst show ?thesis
        by (simp add: move_command_two [OF parts])
    next
      case d: (Some d)
      from src s have "in_bounds (fst s) (snd s)"
        using algebraic_to_rc_in_bounds [of p0 "fst s" "snd s"] by simp
      moreover from dst d have "in_bounds (fst d) (snd d)"
        using algebraic_to_rc_in_bounds [of p1 "fst d" "snd d"] by simp
      ultimately obtain g' where g': "apply_move g p0 p1 s d = Some (Inr g')"
        and alt: "if (\<exists>p. at (board g) (fst s) (snd s) = Inr (Some p) \<and> color p = turn g) \<and>
               (\<exists>b'. move (board g) s d = Some (Inr ((True, []), b')))
            then turn g' = other (turn g) \<and> history g' = history g @ [p0 @ '' -> '' @ p1] \<and>
                 running g' = running g \<and>
                 move (board g) s d = Some (Inr ((True, []), board g'))
            else g' = g \<and>
                 (at (board g) (fst s) (snd s) = Inr None \<or>
                  (\<exists>p. at (board g) (fst s) (snd s) = Inr (Some p) \<and> color p \<noteq> turn g) \<or>
                  move (board g) s d = Some (Inr ((False, []), board g)))"
        using apply_move_outcome [OF wf, of s d p0 p1] by blast
      have cmd: "move_command g raw = Some (Inr g')"
        using src dst s d g' by (simp add: move_command_two [OF parts])
      show ?thesis
      proof (cases "(\<exists>p. at (board g) (fst s) (snd s) = Inr (Some p) \<and> color p = turn g) \<and>
               (\<exists>b'. move (board g) s d = Some (Inr ((True, []), b')))")
        case False
        with alt have "g' = g" by simp
        with cmd show ?thesis by simp
      next
        case True
        with alt have "turn g' = other (turn g)" "history g' = history g @ [p0 @ '' -> '' @ p1]"
          "running g' = running g" "move (board g) s d = Some (Inr ((True, []), board g'))"
          by simp_all
        with cmd parts src dst s d True show ?thesis
          by blast
      qed
    qed
  qed
qed

lemma split_ws_nonempty:
  "cur \<noteq> [] \<or> (\<exists>x\<in>set xs. \<not> is_space x) \<Longrightarrow> split_ws cur xs \<noteq> []"
  by (induction cur xs rule: split_ws.induct) auto

lemma py_strip_last: "py_strip s \<noteq> [] \<Longrightarrow> \<not> is_space (last (py_strip s))"
proof -
  assume ne: "py_strip s \<noteq> []"
  then have "dropWhile is_space (rev (dropWhile is_space s)) \<noteq> []"
    by (simp add: py_strip_def)
  then have "\<not> is_space (hd (dropWhile is_space (rev (dropWhile is_space s))))"
    by (rule hd_dropWhile)
  then show ?thesis
    using ne by (simp add: py_strip_def last_rev)
qed

lemma moves_command_words:
  assumes "startswith (py_strip line) ''moves ''"
  shows "\<exists>tok rest. py_split (py_strip line) = ''moves'' # tok # rest"
proof -
  from assms obtain tl where raw: "py_strip line = ''moves '' @ tl"
    unfolding startswith_def by (metis append_take_drop_id)
  have "tl \<noteq> []"
  proof
    assume "tl = []"
    with raw have "py_strip line = ''moves ''" by simp
    moreover have "is_space (last ''moves '')" by (simp add: is_space_def)
    ultimately show False
      using py_strip_last [of line] by simp
  qed
  with raw have "last tl = last (py_strip line)" by simp
  with py_strip_last [of line] raw have "\<not> is_space (last tl)" by simp
  with \<open>tl \<noteq> []\<close> have "\<exists>x\<in>set tl. \<not> is_space x"
    using last_in_set by blast
  then have "split_ws [] tl \<noteq> []"
    by (simp add: split_ws_nonempty)
  then obtain tok rest where "split_ws [] tl = tok # rest"
    by (cases "split_ws [] tl") simp_all
  moreover have "py_split (py_strip line) = ''moves'' # split_ws [] tl"
    by (simp add: py_split_def raw is_space_def)
  ultimately show ?thesis
    by simp
qed

lemma format_all_on_board: "on_board ms \<Longrightarrow> \<exists>names. format_all ms = Inr names"
proof (induction ms)
  case Nil
  show ?case by simp
next
  case (Cons sq ms)
  obtain r c where sq: "sq = (r, c)" by (cases sq)
  from Cons.prems have "in_bounds r c" "on_board ms"
    by (simp_all add: on_board_def sq)
  from in_bounds_enum [OF this(1)] have "\<exists>n. rc_to_algebraic r c = Inr n"
    by (auto simp add: rc_to_algebraic_def COL_TO_FILE_def)
  with Cons.IH [OF \<open>on_board ms\<close>] show ?case
    by (auto simp add: sq)
qed

lemma legal_moves_from_on_board:
  assumes "wf_board b" and "in_bounds r c"
  shows "\<exists>ms. legal_moves_from b r c = Some (Inr ms) \<and> on_board ms"
proof -
  from at_total [OF assms] obtain po where po: "at b r c = Inr po" by blast
  show ?thesis
  proof (cases po)
    case None
    with po show ?thesis
      by (simp add: legal_moves_from_def on_board_def)
  next
    case (Some p)
    with po pseudo_legal_moves_on_board [OF assms(1), of p r c] show ?thesis
      by (simp add: legal_moves_from_def)
  qed
qed

lemma loop_body_moves:
  assumes wf: "wf_board (board g)" and cmd: "startswith (py_strip line) ''moves ''"
    and other: "py_strip line \<notin> {''quit'', ''exit'', ''board'', ''history''}"
  shows "loop_body g line = Some (Inr (g, True))"
proof -
  from moves_command_words [OF cmd] obtain tok rest where
    words: "py_split (py_strip line) = ''moves'' # tok # rest" by blast
  then have tok: "py_index (py_split (py_strip line)) 1 = Inr tok"
    by (simp add: py_index_def)
  from algebraic_to_rc_returns obtain sq where sq: "algebraic_to_rc tok = Inr sq" by blast
  have unfold: "loop_body g line =
           (case sq of None \<Rightarrow> Some (Inr (g, True))
            | Some (r, c) \<Rightarrow>
               (case legal_moves_from (board g) r c of
                  None \<Rightarrow> None
                | Some (Inl e) \<Rightarrow> Some (Inl e)
                | Some (Inr ms) \<Rightarrow>
                   (case format_all ms of
                      Inl e \<Rightarrow> Some (Inl e)
                    | Inr names \<Rightarrow> Some (Inr (g, True)))))"
    using cmd other by (simp add: loop_body_def Let_def tok sq)
  show ?thesis
  proof (cases sq)
    case None
    with unfold show ?thesis by simp
  next
    case (Some rc)
    obtain r c where rc: "rc = (r, c)" by (cases rc)
    from sq Some rc have "in_bounds r c"
      using algebraic_to_rc_in_bounds by simp
    from legal_moves_from_on_board [OF wf this] obtain ms where
      ms: "legal_moves_from (board g) r c = Some (Inr ms)" "on_board ms" by blast
    from format_all_on_board [OF ms(2)] obtain names where "format_all ms = Inr names" by blast
    with unfold Some rc ms(1) show ?thesis by simp
  qed
qed

lemma loop_body_fixed:
  "py_strip line \<in> {''quit'', ''exit''} \<Longrightarrow> loop_body g line = Some (Inr (g, False))"
  "py_strip line \<in> {''board'', ''history''} \<Longrightarrow> loop_body g line = Some (Inr (g, True))"
  by (auto simp add: loop_body_def Let_def)

lemma loop_body_move_command:
  assumes "py_strip line \<notin> {''quit'', ''exit'', ''board'', ''history''}"
    and "\<not> startswith (py_strip line) ''moves ''"
  shows "loop_body g line =
           (case move_command g (py_strip line) of
              None \<Rightarrow> None
            | Some (Inl e) \<Rightarrow> Some (Inl e)
            | Some (Inr g') \<Rightarrow> Some (Inr (g', True)))"
  using assms by (simp add: loop_body_def Let_def)

lemma wf_start_game: "wf_board (board start_game)"
  by (simp add: start_game_def wf_start_position)

text \<open>The scenario of the specification: e2 to e4, the same command again, then e7 to e5.\<close>

lemma turn_enforcement_end_to_end:
  "map_option (map_sum id (\<lambda>g. (turn g, history g)))
     (input_loop start_game [''e2 e4'', ''e2 e4'', ''e7 e5'', ''quit'']) =
   Some (Inr (WHITE, [''e2 -> e4'', ''e7 -> e5'']))"
  by code_simp

text \<open>
  The shape of the grid is an invariant of the program: \<^verbatim>\<open>Board()\<close> creates it, and
  neither a move nor a pass through the loop body changes it.
\<close>

lemma move_keeps_shape:
  assumes "wf_board b" and "in_bounds r1 c1" and "in_bounds r2 c2"
    and "move b (r1, c1) (r2, c2) = Some (Inr (res, b'))"
  shows "wf_board b'"
  using move_outcome [OF assms(1-3)] assms(1,4) by auto

lemma move_command_keeps_shape:
  assumes wf: "wf_board (board g)" and cmd: "move_command g raw = Some (Inr g')"
  shows "wf_board (board g')"
proof -
  from move_command_outcome [OF wf, of raw] cmd consider "g' = g"
    | s d where "in_bounds (fst s) (snd s)" "in_bounds (fst d) (snd d)"
        "move (board g) s d = Some (Inr ((True, []), board g'))"
    using algebraic_to_rc_in_bounds by (metis option.inject prod.collapse sum.inject(2))
  then show ?thesis
  proof cases
    case 1
    with wf show ?thesis by simp
  next
    case 2
    from move_keeps_shape [OF wf 2(1,2), of "(True, [])" "board g'"] 2(3) show ?thesis
      by simp
  qed
qed

lemma loop_body_keeps_shape:
  assumes wf: "wf_board (board g)"
  shows "\<exists>g' go. loop_body g line = Some (Inr (g', go)) \<and> wf_board (board g')"
proof -
  consider (stop) "py_strip line \<in> {''quit'', ''exit''}"
    | (view) "py_strip line \<in> {''board'', ''history''}"
    | (list) "py_strip line \<notin> {''quit'', ''exit'', ''board'', ''history''}"
        "startswith (py_strip line) ''moves ''"
    | (cmd) "py_strip line \<notin> {''quit'', ''exit'', ''board'', ''history''}"
        "\<not> startswith (py_strip line) ''moves ''"
    by blast
  then show ?thesis
  proof cases
    case stop
    then have "loop_body g line = Some (Inr (g, False))" by (rule loop_body_fixed)
    with wf show ?thesis by blast
  next
    case view
    then have "loop_body g line = Some (Inr (g, True))" by (rule loop_body_fixed)
    with wf show ?thesis by blast
  next
    case list
    have "loop_body g line = Some (Inr (g, True))"
      using wf list(2) list(1) by (rule loop_body_moves)
    with wf show ?thesis by blast
  next
    case cmd
    from move_command_outcome [OF wf, of "py_strip line"] obtain g' where
      g': "move_command g (py_strip line) = Some (Inr g')" by blast
    then have "loop_body g line = Some (Inr (g', True))"
      by (simp add: loop_body_move_command [OF cmd])
    with move_command_keeps_shape [OF wf g'] show ?thesis by blast
  qed
qed

text \<open>So the loop returns on every finite input: with the game at a quit command, or by the
  \<^verbatim>\<open>EOFError\<close> of \<^verbatim>\<open>input\<close>.\<close>

lemma input_loop_returns:
  "wf_board (board g) \<Longrightarrow>
   (\<exists>g'. input_loop g lines = Some (Inr g')) \<or> input_loop g lines = Some (Inl EOFError)"
proof (induction lines arbitrary: g)
  case Nil
  then show ?case by simp
next
  case (Cons line lines)
  from loop_body_keeps_shape [OF Cons.prems, of line] obtain g' go where
    step: "loop_body g line = Some (Inr (g', go))" "wf_board (board g')" by blast
  from Cons.IH [OF step(2)] step(1) show ?case
    by simp
qed

text \<open>
  The words of a command hold no whitespace, so trimming leaves them as they are, and a
  word that parses is, lowercased, the name of its square.
\<close>

lemma split_ws_words:
  "(\<forall>x\<in>set cur. \<not> is_space x) \<Longrightarrow> w \<in> set (split_ws cur xs) \<Longrightarrow> \<forall>x\<in>set w. \<not> is_space x"
proof (induction cur xs rule: split_ws.induct)
  case (1 cur)
  then show ?case
    by (cases "cur = []") simp_all
next
  case (2 cur x xs)
  show ?case
  proof (cases "is_space x")
    case sp: True
    show ?thesis
    proof (cases "cur = []")
      case True
      with sp "2.prems"(2) have "w \<in> set (split_ws [] xs)" by simp
      with "2.IH"(1) [OF sp True] show ?thesis by simp
    next
      case False
      with sp "2.prems"(2) have "w = cur \<or> w \<in> set (split_ws [] xs)" by simp
      then show ?thesis
      proof
        assume "w = cur"
        with "2.prems"(1) show ?thesis by simp
      next
        assume "w \<in> set (split_ws [] xs)"
        with "2.IH"(2) [OF sp False] show ?thesis by simp
      qed
    qed
  next
    case nsp: False
    with "2.prems"(2) have "w \<in> set (split_ws (cur @ [x]) xs)" by simp
    moreover from "2.prems"(1) nsp have "\<forall>y\<in>set (cur @ [x]). \<not> is_space y" by simp
    ultimately show ?thesis
      using "2.IH"(3) [OF nsp] by blast
  qed
qed

lemma py_split_words: "w \<in> set (py_split s) \<Longrightarrow> \<forall>x\<in>set w. \<not> is_space x"
  unfolding py_split_def using split_ws_words [of "[]" w s] by simp

lemma dropWhile_none: "\<forall>x\<in>set xs. \<not> P x \<Longrightarrow> dropWhile P xs = xs"
  by (cases xs) simp_all

lemma py_strip_word: "\<forall>x\<in>set w. \<not> is_space x \<Longrightarrow> py_strip w = w"
proof -
  assume a: "\<forall>x\<in>set w. \<not> is_space x"
  then have "\<forall>x\<in>set (rev w). \<not> is_space x"
    by simp
  then have "dropWhile is_space (rev w) = rev w"
    by (rule dropWhile_none)
  moreover from a have "dropWhile is_space w = w"
    by (rule dropWhile_none)
  ultimately show ?thesis
    by (simp add: py_strip_def)
qed

lemma algebraic_to_rc_name:
  assumes "algebraic_to_rc w = Inr (Some sq)"
  shows "rc_to_algebraic (fst sq) (snd sq) = Inr (normalize w)"
proof -
  from assms have v: "valid_name (normalize w)"
    by (simp add: algebraic_to_rc_cases split: if_splits)
  then obtain f d where s: "normalize w = [f, d]"
    unfolding valid_name_def by (cases "normalize w"; cases "tl (normalize w)") auto
  with v have fd: "f \<in> set ''abcdefgh''" "d \<in> set ''12345678''"
    by (simp_all add: valid_name_def del: set_simps)
  with parse_format_all
  have "rc_to_algebraic (8 - (int (of_char d) - 48)) (int (of_char f) - 97) = Inr [f, d]"
    unfolding list_all_iff by blast
  with assms v s show ?thesis
    by (auto simp add: algebraic_to_rc_cases)
qed

section \<open>The claims\<close>

subsection \<open>Board.move\<close>

text \<open>
  Claim C1. On a board of eight rows of eight cells and for squares \<open>src\<close> and \<open>dst\<close> in
  range, \<^verbatim>\<open>Board.move\<close> returns, and its flag is the failure flag exactly when \<open>src\<close>
  holds no piece, or \<open>dst\<close> holds a piece of the colour of the piece at \<open>src\<close>, or \<open>dst\<close>
  is not among the pseudo-legal moves of the piece at \<open>src\<close>; otherwise the flag is
  the success flag.
\<close>

theorem move_fails_exactly:
  assumes "wf_board b" and "in_bounds r1 c1" and "in_bounds r2 c2"
  shows "\<exists>ok b'. move b (r1, c1) (r2, c2) = Some (Inr ((ok, []), b')) \<and>
           (ok = False \<longleftrightarrow>
              at b r1 c1 = Inr None \<or>
              (\<exists>p q. at b r1 c1 = Inr (Some p) \<and> at b r2 c2 = Inr (Some q) \<and> color q = color p) \<or>
              (\<exists>p ms. at b r1 c1 = Inr (Some p) \<and> pseudo_legal_moves p b r1 c1 = Some (Inr ms) \<and>
                 (r2, c2) \<notin> set ms))"
proof -
  from at_total [OF assms(1,2)] obtain po where po: "at b r1 c1 = Inr po" by blast
  from at_total [OF assms(1,3)] obtain t where t: "at b r2 c2 = Inr t" by blast
  show ?thesis
  proof (cases po)
    case None
    with po move_vacant [of b r1 c1 r2 c2] show ?thesis by auto
  next
    case (Some p)
    with po have p: "at b r1 c1 = Inr (Some p)" by simp
    from pseudo_legal_moves_total [OF assms(1)] obtain ms where
      ms: "pseudo_legal_moves p b r1 c1 = Some (Inr ms)" by blast
    show ?thesis
    proof (cases "case t of None \<Rightarrow> False | Some q \<Rightarrow> color q = color p")
      case True
      then obtain q where q: "t = Some q" "color q = color p"
        by (cases t) simp_all
      with p t move_own_piece [of b r1 c1 p r2 c2 q] show ?thesis by auto
    next
      case free: False
      show ?thesis
      proof (cases "(r2, c2) \<in> set ms")
        case False
        with p t ms move_not_listed [of b r1 c1 p r2 c2 t ms] show ?thesis by auto
      next
        case True
        from move_applied [OF assms p t free ms True] obtain b' where
          "move b (r1, c1) (r2, c2) = Some (Inr ((True, []), b'))" by blast
        moreover have "\<not> (\<exists>q. at b r2 c2 = Inr (Some q) \<and> color q = color p)"
          using t free by auto
        ultimately show ?thesis
          using p ms True by auto
      qed
    qed
  qed
qed

theorem move_fails_exactly_witness:
  "wf_board start_position \<and> in_bounds 6 4 \<and> in_bounds 4 4 \<and>
   (\<exists>ok b'. move start_position (6, 4) (4, 4) = Some (Inr ((ok, []), b')) \<and>
           (ok = False \<longleftrightarrow>
              at start_position 6 4 = Inr None \<or>
              (\<exists>p q. at start_position 6 4 = Inr (Some p) \<and> at start_position 4 4 = Inr (Some q) \<and>
                 color q = color p) \<or>
              (\<exists>p ms. at start_position 6 4 = Inr (Some p) \<and>
                 pseudo_legal_moves p start_position 6 4 = Some (Inr ms) \<and> (4, 4) \<notin> set ms)))"
proof -
  have h1: "wf_board start_position" by (rule wf_start_position)
  have h2: "in_bounds 6 4" and h3: "in_bounds 4 4" by (simp_all add: in_bounds_def)
  from move_fails_exactly [OF h1 h2 h3] h1 h2 h3 show ?thesis by blast
qed

text \<open>
  Claim C2. Whenever \<^verbatim>\<open>Board.move\<close> returns the failure flag, the board after the call
  is the board before it, so every square holds the occupant it held. In particular,
  when \<open>src\<close> is occupied and \<open>dst\<close> holds a piece of the same colour, the call returns
  the failure flag and leaves the board as it was.
\<close>

theorem move_failure_keeps_board:
  "(move b src dst = Some (Inr ((False, msg), b')) \<longrightarrow> b' = b \<and> (\<forall>r c. at b' r c = at b r c)) \<and>
   (at b (fst src) (snd src) = Inr (Some p) \<and> at b (fst dst) (snd dst) = Inr (Some q) \<and>
    color q = color p \<longrightarrow> move b src dst = Some (Inr ((False, []), b)))"
proof -
  obtain r1 c1 r2 c2 where sq: "src = (r1, c1)" "dst = (r2, c2)"
    by (cases src, cases dst)
  have keep: "b' = b" if mv: "move b (r1, c1) (r2, c2) = Some (Inr ((False, msg), b'))"
  proof (cases "at b r1 c1")
    case (Inl e)
    with mv show ?thesis by (simp add: move_def)
  next
    case (Inr po)
    show ?thesis
    proof (cases po)
      case None
      with Inr mv show ?thesis by (simp add: move_def)
    next
      case (Some p)
      with Inr have p: "at b r1 c1 = Inr (Some p)" by simp
      show ?thesis
      proof (cases "at b r2 c2")
        case (Inl e)
        with p mv show ?thesis by (simp add: move_def)
      next
        case t: (Inr t)
        show ?thesis
        proof (cases "case t of None \<Rightarrow> False | Some q \<Rightarrow> color q = color p")
          case True
          with p t mv show ?thesis by (simp add: move_def)
        next
          case free: False
          show ?thesis
          proof (cases "pseudo_legal_moves p b r1 c1")
            case None
            with p t free mv show ?thesis by (simp add: move_def)
          next
            case res: (Some res)
            show ?thesis
            proof (cases res)
              case (Inl e)
              with p t free res mv show ?thesis by (simp add: move_def)
            next
              case ms: (Inr ms)
              show ?thesis
              proof (cases "(r2, c2) \<in> set ms")
                case False
                with p t free res ms mv show ?thesis by (simp add: move_def)
              next
                case True
                with p t free res ms mv show ?thesis
                  by (simp add: move_def split: sum.splits if_splits)
              qed
            qed
          qed
        qed
      qed
    qed
  qed
  have one: "b' = b \<and> (\<forall>r c. at b' r c = at b r c)"
    if "move b src dst = Some (Inr ((False, msg), b'))"
  proof -
    from that have "b' = b" unfolding sq by (rule keep)
    then show ?thesis by simp
  qed
  have two: "move b src dst = Some (Inr ((False, []), b))"
    if "at b (fst src) (snd src) = Inr (Some p) \<and> at b (fst dst) (snd dst) = Inr (Some q) \<and>
        color q = color p"
    using that unfolding sq by (simp add: move_own_piece)
  from one two show ?thesis by blast
qed

theorem move_failure_keeps_board_witness:
  "move start_position (4, 4) (3, 4) = Some (Inr ((False, []), start_position)) \<and>
   (\<forall>r c. at start_position r c = at start_position r c) \<and>
   at start_position 7 0 = Inr (Some (Piece Rook WHITE)) \<and>
   at start_position 6 0 = Inr (Some (Piece Pawn WHITE)) \<and>
   color (Piece Pawn WHITE) = color (Piece Rook WHITE) \<and>
   move start_position (7, 0) (6, 0) = Some (Inr ((False, []), start_position))"
proof -
  let ?src = "(7, 0) :: square" and ?dst = "(6, 0) :: square"
  have a: "move start_position (4, 4) (3, 4) = Some (Inr ((False, []), start_position))"
    by code_simp
  have b: "at start_position 7 0 = Inr (Some (Piece Rook WHITE))"
    by code_simp
  have c: "at start_position 6 0 = Inr (Some (Piece Pawn WHITE))"
    by code_simp
  have d: "color (Piece Pawn WHITE) = color (Piece Rook WHITE)"
    by simp
  from b c have bc: "at start_position (fst ?src) (snd ?src) = Inr (Some (Piece Rook WHITE))"
    "at start_position (fst ?dst) (snd ?dst) = Inr (Some (Piece Pawn WHITE))"
    by simp_all
  note inst = move_failure_keeps_board [where b = start_position and msg = "[]" and b' = start_position]
  from inst [where src = "(4, 4)" and dst = "(3, 4)"] a
  have "\<forall>r c. at start_position r c = at start_position r c"
    by blast
  moreover from inst [where src = ?src and dst = ?dst
      and p = "Piece Rook WHITE" and q = "Piece Pawn WHITE"] bc d
  have "move start_position (7, 0) (6, 0) = Some (Inr ((False, []), start_position))"
    by blast
  ultimately show ?thesis
    using a b c d by blast
qed

text \<open>
  Claim C3. When \<^verbatim>\<open>Board.move\<close> returns the success flag, for squares in range on a
  board of eight rows of eight cells, \<open>src\<close> held a piece and is empty afterwards, and
  \<open>dst\<close> holds that piece afterwards, whatever it held before; but a pawn that lands on
  row 0 as White or on row 7 as Black is replaced there by a queen of its colour.
  In particular, with a White pawn on a7 (row 1, column 0) and a8 (row 0, column 0)
  empty, the move from a7 to a8 succeeds and leaves a White queen on a8 and a7 empty.
\<close>

theorem move_success_relocates:
  "(wf_board b \<and> in_bounds r1 c1 \<and> in_bounds r2 c2 \<and>
    move b (r1, c1) (r2, c2) = Some (Inr ((True, msg), b')) \<longrightarrow>
      (\<exists>p. at b r1 c1 = Inr (Some p) \<and> at b' r1 c1 = Inr None \<and>
         at b' r2 c2 =
           Inr (Some (if kind p = Pawn \<and> ((color p = WHITE \<and> r2 = 0) \<or> (color p = BLACK \<and> r2 = 7))
                      then Piece Queen (color p) else p)))) \<and>
   (wf_board b \<and> at b 1 0 = Inr (Some (Piece Pawn WHITE)) \<and> at b 0 0 = Inr None \<longrightarrow>
      (\<exists>b''. move b (1, 0) (0, 0) = Some (Inr ((True, []), b'')) \<and>
         at b'' 0 0 = Inr (Some (Piece Queen WHITE)) \<and> at b'' 1 0 = Inr None))"
proof -
  have general: "\<exists>p. at b r1 c1 = Inr (Some p) \<and> at b' r1 c1 = Inr None \<and>
         at b' r2 c2 = Inr (Some (promoted p r2))"
    if wf: "wf_board b" and src: "in_bounds r1 c1" and dst: "in_bounds r2 c2"
      and mv: "move b (r1, c1) (r2, c2) = Some (Inr ((True, msg), b'))"
  proof -
    from at_total [OF wf src] obtain po where po: "at b r1 c1 = Inr po" by blast
    from at_total [OF wf dst] obtain t where t: "at b r2 c2 = Inr t" by blast
    from po mv obtain p where p: "at b r1 c1 = Inr (Some p)"
      by (cases po) (simp_all add: move_vacant)
    from pseudo_legal_moves_total [OF wf] obtain ms where
      ms: "pseudo_legal_moves p b r1 c1 = Some (Inr ms)" by blast
    have free: "\<not> (case t of None \<Rightarrow> False | Some q \<Rightarrow> color q = color p)"
      using mv p t by (cases t) (auto simp add: move_own_piece)
    have listed: "(r2, c2) \<in> set ms"
      using mv p t ms move_not_listed [of b r1 c1 p r2 c2 t ms] by auto
    from move_applied [OF wf src dst p t free ms listed] mv obtain
      eff: "\<And>r c. in_bounds r c \<Longrightarrow>
              at b' r c = (if r = r2 \<and> c = c2 then Inr (Some (promoted p r2))
                           else if r = r1 \<and> c = c1 then Inr None else at b r c)"
      by auto
    have differ: "\<not> (r1 = r2 \<and> c1 = c2)"
      using p t free by auto
    from eff [OF src] eff [OF dst] differ p show ?thesis
      by auto
  qed
  have example: "\<exists>b''. move b (1, 0) (0, 0) = Some (Inr ((True, []), b'')) \<and>
         at b'' 0 0 = Inr (Some (Piece Queen WHITE)) \<and> at b'' 1 0 = Inr None"
    if wf: "wf_board b" and p: "at b 1 0 = Inr (Some (Piece Pawn WHITE))" and t: "at b 0 0 = Inr None"
  proof -
    have src: "in_bounds 1 0" and dst: "in_bounds 0 0"
      by (simp_all add: in_bounds_def)
    from pseudo_legal_moves_total [OF wf] obtain ms where
      ms: "pseudo_legal_moves (Piece Pawn WHITE) b 1 0 = Some (Inr ms)" by blast
    from pawn_moves_set [OF wf, of "Piece Pawn WHITE" 1 0] ms t
    have listed: "(0, 0) \<in> set ms"
      by (simp add: pawn_dir_def in_bounds_def)
    have free: "\<not> (case None of None \<Rightarrow> False | Some q \<Rightarrow> color q = color (Piece Pawn WHITE))"
      by simp
    from move_applied [OF wf src dst p t free ms listed] obtain b'' where
      "move b (1, 0) (0, 0) = Some (Inr ((True, []), b''))"
      "\<And>r c. in_bounds r c \<Longrightarrow>
              at b'' r c = (if r = 0 \<and> c = 0 then Inr (Some (promoted (Piece Pawn WHITE) 0))
                           else if r = 1 \<and> c = 0 then Inr None else at b r c)"
      by blast
    then show ?thesis
      using src dst by (auto simp add: promoted_def)
  qed
  from general example show ?thesis
    unfolding promoted_def by blast
qed

theorem move_success_relocates_witness:
  "wf_board pawn_on_a7 \<and> in_bounds 1 0 \<and> in_bounds 0 0 \<and>
   at pawn_on_a7 1 0 = Inr (Some (Piece Pawn WHITE)) \<and> at pawn_on_a7 0 0 = Inr None \<and>
   (\<exists>b''. move pawn_on_a7 (1, 0) (0, 0) = Some (Inr ((True, []), b'')) \<and>
      at b'' 0 0 = Inr (Some (Piece Queen WHITE)) \<and> at b'' 1 0 = Inr None \<and>
      (\<exists>p. at pawn_on_a7 1 0 = Inr (Some p) \<and> at b'' 1 0 = Inr None \<and>
         at b'' 0 0 =
           Inr (Some (if kind p = Pawn \<and> ((color p = WHITE \<and> (0::int) = 0) \<or> (color p = BLACK \<and> (0::int) = 7))
                      then Piece Queen (color p) else p))))"
proof -
  have h1: "wf_board pawn_on_a7" by (rule wf_pawn_on_a7)
  have h2: "in_bounds 1 0" and h3: "in_bounds 0 0" by (simp_all add: in_bounds_def)
  have h4: "at pawn_on_a7 1 0 = Inr (Some (Piece Pawn WHITE))" by code_simp
  have h5: "at pawn_on_a7 0 0 = Inr None" by code_simp
  note inst = move_success_relocates [where b = pawn_on_a7 and ?r1.0 = 1 and ?c1.0 = 0
      and ?r2.0 = 0 and ?c2.0 = 0 and msg = "[]"]
  from inst h1 h4 h5 obtain b'' where
    m: "move pawn_on_a7 (1, 0) (0, 0) = Some (Inr ((True, []), b''))"
      "at b'' 0 0 = Inr (Some (Piece Queen WHITE))" "at b'' 1 0 = Inr None"
    by blast
  from inst [where b' = b''] h1 h2 h3 m(1)
  have "\<exists>p. at pawn_on_a7 1 0 = Inr (Some p) \<and> at b'' 1 0 = Inr None \<and>
         at b'' 0 0 =
           Inr (Some (if kind p = Pawn \<and> ((color p = WHITE \<and> (0::int) = 0) \<or> (color p = BLACK \<and> (0::int) = 7))
                      then Piece Queen (color p) else p))"
    by blast
  with m h1 h2 h3 h4 h5 show ?thesis
    by blast
qed

text \<open>
  Claim C10. When \<^verbatim>\<open>Board.move\<close> returns the success flag, every square in range other
  than \<open>src\<close> and \<open>dst\<close> holds after the call the occupant it held before.
\<close>

theorem move_frame:
  assumes "wf_board b" and "in_bounds r1 c1" and "in_bounds r2 c2"
    and "move b (r1, c1) (r2, c2) = Some (Inr ((True, msg), b'))"
    and "in_bounds r c" and "(r, c) \<noteq> (r1, c1)" and "(r, c) \<noteq> (r2, c2)"
  shows "at b' r c = at b r c"
proof -
  note wf = assms(1) and src = assms(2) and dst = assms(3) and mv = assms(4)
  from at_total [OF wf src] obtain po where po: "at b r1 c1 = Inr po" by blast
  from at_total [OF wf dst] obtain t where t: "at b r2 c2 = Inr t" by blast
  from po mv obtain p where p: "at b r1 c1 = Inr (Some p)"
    by (cases po) (simp_all add: move_vacant)
  from pseudo_legal_moves_total [OF wf] obtain ms where
    ms: "pseudo_legal_moves p b r1 c1 = Some (Inr ms)" by blast
  have free: "\<not> (case t of None \<Rightarrow> False | Some q \<Rightarrow> color q = color p)"
    using mv p t by (cases t) (auto simp add: move_own_piece)
  have listed: "(r2, c2) \<in> set ms"
    using mv p t ms move_not_listed [of b r1 c1 p r2 c2 t ms] by auto
  from move_applied [OF wf src dst p t free ms listed] mv obtain
    eff: "\<And>r c. in_bounds r c \<Longrightarrow>
            at b' r c = (if r = r2 \<and> c = c2 then Inr (Some (promoted p r2))
                         else if r = r1 \<and> c = c1 then Inr None else at b r c)"
    by auto
  from eff [OF assms(5)] assms(6,7) show ?thesis
    by auto
qed

theorem move_frame_witness:
  "wf_board start_position \<and> in_bounds 6 4 \<and> in_bounds 4 4 \<and> in_bounds 7 3 \<and>
   ((7, 3) :: int \<times> int) \<noteq> (6, 4) \<and> ((7, 3) :: int \<times> int) \<noteq> (4, 4) \<and>
   move start_position (6, 4) (4, 4) = Some (Inr ((True, []), after_e2e4)) \<and>
   at after_e2e4 7 3 = at start_position 7 3"
proof -
  have h1: "wf_board start_position" by (rule wf_start_position)
  have h2: "in_bounds 6 4" and h3: "in_bounds 4 4" and h5: "in_bounds 7 3"
    by (simp_all add: in_bounds_def)
  have h6: "((7, 3) :: int \<times> int) \<noteq> (6, 4)" and h7: "((7, 3) :: int \<times> int) \<noteq> (4, 4)"
    by simp_all
  have h4: "move start_position (6, 4) (4, 4) = Some (Inr ((True, []), after_e2e4))"
    by (rule move_e2e4)
  from move_frame [OF h1 h2 h3 h4 h5 h6 h7] h1 h2 h3 h4 h5 h6 h7 show ?thesis
    by blast
qed

subsection \<open>Pawn.pseudo_legal_moves\<close>

text \<open>
  Claim C6. For a pawn of either colour on a square in range, on a board of eight rows
  of eight cells: forward is one row down in index for White and one row up for Black;
  the square one step forward is among the pseudo-legal moves exactly when it is in
  bounds and empty; the square two steps forward is among them exactly when the pawn is
  on its starting row (6 for White, 1 for Black) and both squares ahead are empty; and
  each of the two forward-diagonal squares is among them exactly when it is in bounds
  and holds a piece of the other colour, so never when it is empty.
\<close>

theorem pawn_moves_rules:
  assumes "wf_board b" and "in_bounds r c"
  shows "pawn_dir WHITE = -1 \<and> pawn_dir BLACK = 1 \<and> pawn_start WHITE = 6 \<and> pawn_start BLACK = 1 \<and>
    (\<exists>ms. pseudo_legal_moves (Piece Pawn col) b r c = Some (Inr ms) \<and>
       ((r + pawn_dir col, c) \<in> set ms \<longleftrightarrow>
          in_bounds (r + pawn_dir col) c \<and> at b (r + pawn_dir col) c = Inr None) \<and>
       ((r + 2 * pawn_dir col, c) \<in> set ms \<longleftrightarrow>
          r = pawn_start col \<and> at b (r + pawn_dir col) c = Inr None \<and>
          at b (r + 2 * pawn_dir col) c = Inr None) \<and>
       (\<forall>dc\<in>{-1, 1}.
          ((r + pawn_dir col, c + dc) \<in> set ms \<longleftrightarrow>
             in_bounds (r + pawn_dir col) (c + dc) \<and>
             (\<exists>t. at b (r + pawn_dir col) (c + dc) = Inr (Some t) \<and> color t \<noteq> col)) \<and>
          (at b (r + pawn_dir col) (c + dc) = Inr None \<longrightarrow> (r + pawn_dir col, c + dc) \<notin> set ms)))"
proof -
  define d where "d = pawn_dir col"
  have d: "d \<noteq> 0"
    by (simp add: d_def pawn_dir_def)
  from pawn_moves_set [OF assms(1), of "Piece Pawn col" r c] obtain ms where
    ms: "pseudo_legal_moves (Piece Pawn col) b r c = Some (Inr ms)" and
    sms: "set ms =
             {sq. sq = (r + d, c) \<and> in_bounds (r + d) c \<and> at b (r + d) c = Inr None} \<union>
             {sq. sq = (r + 2 * d, c) \<and> r = pawn_start col \<and> in_bounds (r + d) c \<and>
                  at b (r + d) c = Inr None \<and> in_bounds (r + 2 * d) c \<and> at b (r + 2 * d) c = Inr None} \<union>
             {sq. \<exists>dc\<in>{-1, 1}. sq = (r + d, c + dc) \<and> in_bounds (r + d) (c + dc) \<and>
                    (\<exists>t. at b (r + d) (c + dc) = Inr (Some t) \<and> color t \<noteq> col)}"
    unfolding d_def by auto
  have reach: "in_bounds (r + d) c \<and> in_bounds (r + 2 * d) c" if "r = pawn_start col"
    using that assms(2) by (auto simp add: d_def pawn_dir_def pawn_start_def in_bounds_def)
  have one: "(r + d, c) \<in> set ms \<longleftrightarrow> in_bounds (r + d) c \<and> at b (r + d) c = Inr None"
    unfolding sms using d by simp
  have two: "(r + 2 * d, c) \<in> set ms \<longleftrightarrow>
          r = pawn_start col \<and> at b (r + d) c = Inr None \<and> at b (r + 2 * d) c = Inr None"
    unfolding sms using d reach by auto
  have diag: "(r + d, c + dc) \<in> set ms \<longleftrightarrow>
             in_bounds (r + d) (c + dc) \<and> (\<exists>t. at b (r + d) (c + dc) = Inr (Some t) \<and> color t \<noteq> col)"
    if "dc \<in> {-1, 1}" for dc
    unfolding sms using d that by auto
  have signs: "pawn_dir WHITE = -1 \<and> pawn_dir BLACK = 1 \<and> pawn_start WHITE = 6 \<and> pawn_start BLACK = 1"
    by (simp add: pawn_dir_def pawn_start_def)
  have nodiag: "at b (r + d) (c + dc) = Inr None \<longrightarrow> (r + d, c + dc) \<notin> set ms"
    if "dc \<in> {-1, 1}" for dc
    using diag [OF that] by simp
  have "\<exists>ms. pseudo_legal_moves (Piece Pawn col) b r c = Some (Inr ms) \<and>
       ((r + d, c) \<in> set ms \<longleftrightarrow> in_bounds (r + d) c \<and> at b (r + d) c = Inr None) \<and>
       ((r + 2 * d, c) \<in> set ms \<longleftrightarrow>
          r = pawn_start col \<and> at b (r + d) c = Inr None \<and> at b (r + 2 * d) c = Inr None) \<and>
       (\<forall>dc\<in>{-1, 1}.
          ((r + d, c + dc) \<in> set ms \<longleftrightarrow>
             in_bounds (r + d) (c + dc) \<and>
             (\<exists>t. at b (r + d) (c + dc) = Inr (Some t) \<and> color t \<noteq> col)) \<and>
          (at b (r + d) (c + dc) = Inr None \<longrightarrow> (r + d, c + dc) \<notin> set ms))"
    using ms one two diag nodiag by (intro exI [of _ ms] conjI ballI) blast+
  with signs show ?thesis
    unfolding d_def by (intro conjI) blast+
qed

theorem pawn_moves_rules_witness:
  "wf_board start_position \<and> in_bounds 6 4 \<and>
   (\<exists>ms. pseudo_legal_moves (Piece Pawn WHITE) start_position 6 4 = Some (Inr ms) \<and>
      (6 + pawn_dir WHITE, 4) \<in> set ms \<and> (6 + 2 * pawn_dir WHITE, 4) \<in> set ms \<and>
      (6 + pawn_dir WHITE, 4 + 1) \<notin> set ms)"
proof -
  have h1: "wf_board start_position" by (rule wf_start_position)
  have h2: "in_bounds 6 4" by (simp add: in_bounds_def)
  have e1: "in_bounds (6 + pawn_dir WHITE) 4" by (simp add: in_bounds_def pawn_dir_def)
  have e2: "at start_position (6 + pawn_dir WHITE) 4 = Inr None" by code_simp
  have e3: "at start_position (6 + 2 * pawn_dir WHITE) 4 = Inr None" by code_simp
  have e4: "6 = pawn_start WHITE" by (simp add: pawn_start_def)
  have e5: "at start_position (6 + pawn_dir WHITE) (4 + 1) = Inr None" by code_simp
  have e6: "(1::int) \<in> {-1, 1}" by simp
  from pawn_moves_rules [OF h1 h2, of WHITE] h1 h2 e1 e2 e3 e4 e5 e6 show ?thesis
    by blast
qed

subsection \<open>Sliding pieces\<close>

text \<open>
  Claim C5. For a queen (eight directions), a rook (the four orthogonal directions) and
  a bishop (the four diagonal directions), on a board of eight rows of eight cells, a
  square is among the pseudo-legal moves exactly when it lies some \<open>k \<ge> 1\<close> steps from
  the origin along one of the piece's directions, every square before it on the way is
  in bounds and empty, and it is in bounds and empty or held by a piece of the other
  colour: the walk passes empty squares, stops before a piece of its own colour and
  stops on a piece of the other colour. So a rook on d4 with d5 empty and a pawn of its
  own colour on d6 has d5 but none of d6, d7, d8; with a pawn of the other colour on d6
  it has d5 and d6 but neither d7 nor d8.
\<close>

theorem sliding_rules:
  "directions Queen = [(-1, 0), (1, 0), (0, -1), (0, 1), (-1, -1), (-1, 1), (1, -1), (1, 1)] \<and>
   directions Rook = [(-1, 0), (1, 0), (0, -1), (0, 1)] \<and>
   directions Bishop = [(-1, -1), (-1, 1), (1, -1), (1, 1)] \<and>
   (wf_board b \<and> kind self \<in> {Queen, Rook, Bishop} \<longrightarrow>
      (\<exists>ms. pseudo_legal_moves self b r c = Some (Inr ms) \<and>
         (\<forall>sq. sq \<in> set ms \<longleftrightarrow>
            (\<exists>d\<in>set (directions (kind self)). \<exists>k. slide_reach self b r c d k \<and>
               sq = (r + int k * fst d, c + int k * snd d))))) \<and>
   (wf_board b \<and> kind self = Rook \<and> at b 3 3 = Inr None \<and>
    at b 2 3 = Inr (Some (Piece Pawn (color self))) \<longrightarrow>
      (\<exists>ms. pseudo_legal_moves self b 4 3 = Some (Inr ms) \<and>
         (3, 3) \<in> set ms \<and> (2, 3) \<notin> set ms \<and> (1, 3) \<notin> set ms \<and> (0, 3) \<notin> set ms)) \<and>
   (wf_board b \<and> kind self = Rook \<and> at b 3 3 = Inr None \<and>
    at b 2 3 = Inr (Some (Piece Pawn (other (color self)))) \<longrightarrow>
      (\<exists>ms. pseudo_legal_moves self b 4 3 = Some (Inr ms) \<and>
         (3, 3) \<in> set ms \<and> (2, 3) \<in> set ms \<and> (1, 3) \<notin> set ms \<and> (0, 3) \<notin> set ms))"
proof -
  have dirs: "directions Queen = [(-1, 0), (1, 0), (0, -1), (0, 1), (-1, -1), (-1, 1), (1, -1), (1, 1)]"
    "directions Rook = [(-1, 0), (1, 0), (0, -1), (0, 1)]"
    "directions Bishop = [(-1, -1), (-1, 1), (1, -1), (1, 1)]"
    by (simp_all add: directions_def)
  have general: "\<exists>ms. pseudo_legal_moves self b r c = Some (Inr ms) \<and>
         (\<forall>sq. sq \<in> set ms \<longleftrightarrow>
            (\<exists>d\<in>set (directions (kind self)). \<exists>k. slide_reach self b r c d k \<and>
               sq = (r + int k * fst d, c + int k * snd d)))"
    if "wf_board b \<and> kind self \<in> {Queen, Rook, Bishop}"
    using that sliding_moves_set [of b self r c] by blast
  have rook: "\<exists>ms. pseudo_legal_moves self b 4 3 = Some (Inr ms) \<and>
         ((3, 3) \<in> set ms) = True \<and> ((2, 3) \<in> set ms) = (color t \<noteq> color self) \<and>
         (1, 3) \<notin> set ms \<and> (0, 3) \<notin> set ms"
    if wf: "wf_board b" and k: "kind self = Rook" and d5: "at b 3 3 = Inr None"
      and d6: "at b 2 3 = Inr (Some t)" for t
  proof -
    from k have "kind self \<in> {Queen, Rook, Bishop}" by simp
    from sliding_moves_set [OF wf this, of 4 3] obtain ms where
      ms: "pseudo_legal_moves self b 4 3 = Some (Inr ms)" and
      char: "\<forall>sq. sq \<in> set ms \<longleftrightarrow>
              (\<exists>d\<in>set (directions Rook). \<exists>k. slide_reach self b 4 3 d k \<and>
                 sq = (4 + int k * fst d, 3 + int k * snd d))"
      unfolding k by blast
    have "(3, 3) \<in> set ms"
      using rook_d4_towards_d8 [OF char, of 3] d5 by (simp only: slide_d4_d5) simp
    moreover have "(2, 3) \<in> set ms \<longleftrightarrow> color t \<noteq> color self"
      using rook_d4_towards_d8 [OF char, of 2] d5 d6 by (simp only: slide_d4_d6) simp
    moreover have "(1, 3) \<notin> set ms"
      using rook_d4_towards_d8 [OF char, of 1] slide_d4_beyond_d6 [OF d6, of 1 self] by simp
    moreover have "(0, 3) \<notin> set ms"
      using rook_d4_towards_d8 [OF char, of 0] slide_d4_beyond_d6 [OF d6, of 0 self] by simp
    ultimately show ?thesis
      using ms by simp
  qed
  have own: "\<exists>ms. pseudo_legal_moves self b 4 3 = Some (Inr ms) \<and>
         (3, 3) \<in> set ms \<and> (2, 3) \<notin> set ms \<and> (1, 3) \<notin> set ms \<and> (0, 3) \<notin> set ms"
    if "wf_board b \<and> kind self = Rook \<and> at b 3 3 = Inr None \<and>
        at b 2 3 = Inr (Some (Piece Pawn (color self)))"
    using that rook [of "Piece Pawn (color self)"] by simp
  have opp: "\<exists>ms. pseudo_legal_moves self b 4 3 = Some (Inr ms) \<and>
         (3, 3) \<in> set ms \<and> (2, 3) \<in> set ms \<and> (1, 3) \<notin> set ms \<and> (0, 3) \<notin> set ms"
    if "wf_board b \<and> kind self = Rook \<and> at b 3 3 = Inr None \<and>
        at b 2 3 = Inr (Some (Piece Pawn (other (color self))))"
  proof -
    have "other (color self) \<noteq> color self"
      by (cases "color self") (simp_all add: other_def)
    with that rook [of "Piece Pawn (other (color self))"] show ?thesis
      by simp
  qed
  from dirs general own opp show ?thesis
    by (intro conjI impI) blast+
qed

theorem sliding_rules_witness:
  "wf_board (rook_d4 WHITE) \<and> kind (Piece Rook WHITE) \<in> {Queen, Rook, Bishop} \<and>
   kind (Piece Rook WHITE) = Rook \<and> at (rook_d4 WHITE) 3 3 = Inr None \<and>
   at (rook_d4 WHITE) 2 3 = Inr (Some (Piece Pawn (color (Piece Rook WHITE)))) \<and>
   (\<exists>ms. pseudo_legal_moves (Piece Rook WHITE) (rook_d4 WHITE) 4 3 = Some (Inr ms) \<and>
      (\<forall>sq. sq \<in> set ms \<longleftrightarrow>
         (\<exists>d\<in>set (directions (kind (Piece Rook WHITE))). \<exists>k.
            slide_reach (Piece Rook WHITE) (rook_d4 WHITE) 4 3 d k \<and>
            sq = (4 + int k * fst d, 3 + int k * snd d)))) \<and>
   (\<exists>ms. pseudo_legal_moves (Piece Rook WHITE) (rook_d4 WHITE) 4 3 = Some (Inr ms) \<and>
      (3, 3) \<in> set ms \<and> (2, 3) \<notin> set ms \<and> (1, 3) \<notin> set ms \<and> (0, 3) \<notin> set ms) \<and>
   wf_board (rook_d4 BLACK) \<and> at (rook_d4 BLACK) 3 3 = Inr None \<and>
   at (rook_d4 BLACK) 2 3 = Inr (Some (Piece Pawn (other (color (Piece Rook WHITE))))) \<and>
   (\<exists>ms. pseudo_legal_moves (Piece Rook WHITE) (rook_d4 BLACK) 4 3 = Some (Inr ms) \<and>
      (3, 3) \<in> set ms \<and> (2, 3) \<in> set ms \<and> (1, 3) \<notin> set ms \<and> (0, 3) \<notin> set ms) \<and>
   slide_reach (Piece Rook WHITE) (rook_d4 BLACK) 4 3 (-1, 0) 2"
proof -
  have w1: "wf_board (rook_d4 WHITE)" and w2: "wf_board (rook_d4 BLACK)"
    by (rule wf_rook_d4)+
  have k1: "kind (Piece Rook WHITE) \<in> {Queen, Rook, Bishop}" and k2: "kind (Piece Rook WHITE) = Rook"
    by simp_all
  have a1: "at (rook_d4 WHITE) 3 3 = Inr None" by code_simp
  have a2: "at (rook_d4 WHITE) 2 3 = Inr (Some (Piece Pawn (color (Piece Rook WHITE))))" by code_simp
  have a3: "at (rook_d4 BLACK) 3 3 = Inr None" by code_simp
  have a4: "at (rook_d4 BLACK) 2 3 = Inr (Some (Piece Pawn (other (color (Piece Rook WHITE)))))" by code_simp
  have a5: "slide_reach (Piece Rook WHITE) (rook_d4 BLACK) 4 3 (-1, 0) 2" by code_simp
  from sliding_rules [of "rook_d4 WHITE" "Piece Rook WHITE" 4 3] w1 k1 k2 a1 a2
  have p1: "\<exists>ms. pseudo_legal_moves (Piece Rook WHITE) (rook_d4 WHITE) 4 3 = Some (Inr ms) \<and>
      (\<forall>sq. sq \<in> set ms \<longleftrightarrow>
         (\<exists>d\<in>set (directions (kind (Piece Rook WHITE))). \<exists>k.
            slide_reach (Piece Rook WHITE) (rook_d4 WHITE) 4 3 d k \<and>
            sq = (4 + int k * fst d, 3 + int k * snd d)))"
    and p2: "\<exists>ms. pseudo_legal_moves (Piece Rook WHITE) (rook_d4 WHITE) 4 3 = Some (Inr ms) \<and>
      (3, 3) \<in> set ms \<and> (2, 3) \<notin> set ms \<and> (1, 3) \<notin> set ms \<and> (0, 3) \<notin> set ms"
    by blast+
  from sliding_rules [of "rook_d4 BLACK" "Piece Rook WHITE" 4 3] w2 k2 a3 a4
  have p3: "\<exists>ms. pseudo_legal_moves (Piece Rook WHITE) (rook_d4 BLACK) 4 3 = Some (Inr ms) \<and>
      (3, 3) \<in> set ms \<and> (2, 3) \<in> set ms \<and> (1, 3) \<notin> set ms \<and> (0, 3) \<notin> set ms"
    by blast
  from w1 w2 k1 k2 a1 a2 a3 a4 a5 p1 p2 p3 show ?thesis
    by (intro conjI)
qed

subsection \<open>Coordinate codec and bounds\<close>

text \<open>
  Claim C4. For every square \<open>(r, c)\<close> in range, \<^verbatim>\<open>rc_to_algebraic\<close> returns a name and
  \<^verbatim>\<open>algebraic_to_rc\<close> of that name returns \<open>(r, c)\<close>. For every input whose normal form
  (trimmed and lowercased) is a file \<open>a\<close> to \<open>h\<close> followed by a rank \<open>1\<close> to \<open>8\<close>,
  \<^verbatim>\<open>algebraic_to_rc\<close> returns a square and \<^verbatim>\<open>rc_to_algebraic\<close> of it is that normal form.
\<close>

theorem codec_round_trip:
  "(in_bounds r c \<longrightarrow>
      (\<exists>s. rc_to_algebraic r c = Inr s \<and> algebraic_to_rc s = Inr (Some (r, c)))) \<and>
   (valid_name (normalize s0) \<longrightarrow>
      (\<exists>r' c'. algebraic_to_rc s0 = Inr (Some (r', c')) \<and> rc_to_algebraic r' c' = Inr (normalize s0))) \<and>
   normalize s0 = py_lower (py_strip s0) \<and>
   (valid_name (normalize s0) \<longleftrightarrow>
      length (normalize s0) = 2 \<and> normalize s0 ! 0 \<in> set ''abcdefgh'' \<and>
      normalize s0 ! 1 \<in> set ''12345678'')"
proof -
  have one: "\<exists>s. rc_to_algebraic r c = Inr s \<and> algebraic_to_rc s = Inr (Some (r, c))"
    if "in_bounds r c"
  proof -
    from in_bounds_enum [OF that] format_parse_all
    have "case rc_to_algebraic r c of Inl e \<Rightarrow> False | Inr s \<Rightarrow> algebraic_to_rc s = Inr (Some (r, c))"
      unfolding list_all_iff by blast
    then show ?thesis
      by (cases "rc_to_algebraic r c") simp_all
  qed
  have two: "\<exists>r' c'. algebraic_to_rc s0 = Inr (Some (r', c')) \<and> rc_to_algebraic r' c' = Inr (normalize s0)"
    if v: "valid_name (normalize s0)"
  proof -
    from v obtain f d where s: "normalize s0 = [f, d]"
      unfolding valid_name_def by (cases "normalize s0"; cases "tl (normalize s0)") auto
    with v have fd: "f \<in> set ''abcdefgh''" "d \<in> set ''12345678''"
      by (simp_all add: valid_name_def del: set_simps)
    with parse_format_all
    have "rc_to_algebraic (8 - (int (of_char d) - 48)) (int (of_char f) - 97) = Inr [f, d]"
      unfolding list_all_iff by blast
    with v s show ?thesis
      by (simp add: algebraic_to_rc_cases)
  qed
  from one two show ?thesis
    by (simp add: normalize_def valid_name_def del: set_simps)
qed

theorem codec_round_trip_witness:
  "in_bounds 4 4 \<and>
   (\<exists>s. rc_to_algebraic 4 4 = Inr s \<and> algebraic_to_rc s = Inr (Some (4, 4))) \<and>
   valid_name (normalize '' E4 '') \<and>
   (\<exists>r' c'. algebraic_to_rc '' E4 '' = Inr (Some (r', c')) \<and>
      rc_to_algebraic r' c' = Inr (normalize '' E4 ''))"
proof -
  have h1: "in_bounds 4 4" by (simp add: in_bounds_def)
  have h2: "valid_name (normalize '' E4 '')" by code_simp
  from codec_round_trip [of 4 4 "'' E4 ''"] h1 h2 show ?thesis
    by blast
qed

text \<open>
  Claim C9. \<^verbatim>\<open>algebraic_to_rc\<close> never raises; it returns \<^verbatim>\<open>None\<close> exactly when the input,
  trimmed and lowercased, is not two characters with the first in \<open>a\<close> to \<open>h\<close> and the
  second in \<open>1\<close> to \<open>8\<close>; on every other input it returns the square of row 8 minus the
  rank digit and column the index of the file, which is in range. And on a board of
  eight rows of eight cells the move generation of every piece, from any origin,
  returns without raising, and every square it returns is in range.
\<close>

theorem parse_and_generators_safe:
  "(\<exists>res. algebraic_to_rc s0 = Inr res) \<and>
   (algebraic_to_rc s0 = Inr None \<longleftrightarrow>
      \<not> (length (normalize s0) = 2 \<and> normalize s0 ! 0 \<in> set ''abcdefgh'' \<and>
         normalize s0 ! 1 \<in> set ''12345678'')) \<and>
   (length (normalize s0) = 2 \<and> normalize s0 ! 0 \<in> set ''abcdefgh'' \<and>
    normalize s0 ! 1 \<in> set ''12345678'' \<longrightarrow>
      algebraic_to_rc s0 =
        Inr (Some (8 - (int (of_char (normalize s0 ! 1)) - 48), int (of_char (normalize s0 ! 0)) - 97)) \<and>
      in_bounds (8 - (int (of_char (normalize s0 ! 1)) - 48)) (int (of_char (normalize s0 ! 0)) - 97)) \<and>
   normalize s0 = py_lower (py_strip s0) \<and>
   (wf_board b \<longrightarrow>
      (\<exists>ms. pseudo_legal_moves self b r c = Some (Inr ms) \<and>
         (\<forall>sq\<in>set ms. in_bounds (fst sq) (snd sq))))"
proof -
  let ?valid = "length (normalize s0) = 2 \<and> normalize s0 ! 0 \<in> set ''abcdefgh'' \<and>
         normalize s0 ! 1 \<in> set ''12345678''"
  have v: "valid_name (normalize s0) \<longleftrightarrow> ?valid"
    by (simp add: valid_name_def del: set_simps)
  have returns: "\<exists>res. algebraic_to_rc s0 = Inr res"
    by (simp add: algebraic_to_rc_cases)
  have none: "algebraic_to_rc s0 = Inr None \<longleftrightarrow> \<not> ?valid"
    unfolding v [symmetric] by (simp add: algebraic_to_rc_cases)
  have some: "algebraic_to_rc s0 =
        Inr (Some (8 - (int (of_char (normalize s0 ! 1)) - 48), int (of_char (normalize s0 ! 0)) - 97)) \<and>
      in_bounds (8 - (int (of_char (normalize s0 ! 1)) - 48)) (int (of_char (normalize s0 ! 0)) - 97)"
    if "?valid"
  proof -
    from that have "valid_name (normalize s0)" by (simp only: v)
    then have "algebraic_to_rc s0 =
        Inr (Some (8 - (int (of_char (normalize s0 ! 1)) - 48), int (of_char (normalize s0 ! 0)) - 97))"
      by (simp add: algebraic_to_rc_cases)
    moreover from that have "in_bounds (8 - (int (of_char (normalize s0 ! 1)) - 48))
        (int (of_char (normalize s0 ! 0)) - 97)"
      by (intro parsed_square_in_bounds) blast+
    ultimately show ?thesis ..
  qed
  have gen: "\<exists>ms. pseudo_legal_moves self b r c = Some (Inr ms) \<and>
         (\<forall>sq\<in>set ms. in_bounds (fst sq) (snd sq))"
    if "wf_board b"
    using pseudo_legal_moves_on_board [OF that, of self r c]
    by (simp add: on_board_def list_all_iff)
  have norm: "normalize s0 = py_lower (py_strip s0)"
    by (simp add: normalize_def)
  from returns none some gen norm show ?thesis
    by blast
qed

theorem parse_and_generators_safe_witness:
  "length (normalize ''e4'') = 2 \<and> normalize ''e4'' ! 0 \<in> set ''abcdefgh'' \<and>
   normalize ''e4'' ! 1 \<in> set ''12345678'' \<and>
   algebraic_to_rc ''e4'' =
     Inr (Some (8 - (int (of_char (normalize ''e4'' ! 1)) - 48), int (of_char (normalize ''e4'' ! 0)) - 97)) \<and>
   wf_board start_position \<and>
   (\<exists>ms. pseudo_legal_moves (Piece Knight WHITE) start_position 7 1 = Some (Inr ms) \<and>
      (\<forall>sq\<in>set ms. in_bounds (fst sq) (snd sq))) \<and>
   length (normalize ''e42'') \<noteq> 2 \<and> algebraic_to_rc ''e42'' = Inr None"
proof -
  have h0: "length (normalize ''e42'') \<noteq> 2" by code_simp
  have h1: "length (normalize ''e4'') = 2" by code_simp
  have h2: "normalize ''e4'' ! 0 \<in> set ''abcdefgh''" by code_simp
  have h3: "normalize ''e4'' ! 1 \<in> set ''12345678''" by code_simp
  have h4: "wf_board start_position" by (rule wf_start_position)
  from parse_and_generators_safe [of "''e42''"] h0
  have "algebraic_to_rc ''e42'' = Inr None"
    by blast
  with parse_and_generators_safe [of "''e4''" start_position "Piece Knight WHITE" 7 1] h0 h1 h2 h3 h4
  show ?thesis
    by blast
qed

subsection \<open>The initial position\<close>

text \<open>
  Claim C7. \<^verbatim>\<open>Board()\<close> returns a board of eight rows of eight cells with exactly 16
  White and 16 Black pieces: White pawns on all of row 6, Black pawns on all of row 1,
  on row 7 in White and on row 0 in Black the pieces Rook, Knight, Bishop, Queen, King,
  Bishop, Knight, Rook in the order of the columns 0 to 7, and rows 2 to 5 empty.
\<close>

theorem initial_position:
  "\<exists>b. new_board = Inr b \<and>
     length (grid b) = 8 \<and> map length (grid b) = replicate 8 8 \<and>
     count_color WHITE b = 16 \<and> count_color BLACK b = 16 \<and>
     map (at b 6) [0, 1, 2, 3, 4, 5, 6, 7] = replicate 8 (Inr (Some (Piece Pawn WHITE))) \<and>
     map (at b 1) [0, 1, 2, 3, 4, 5, 6, 7] = replicate 8 (Inr (Some (Piece Pawn BLACK))) \<and>
     map (at b 7) [0, 1, 2, 3, 4, 5, 6, 7] =
       map (\<lambda>k. Inr (Some (Piece k WHITE))) [Rook, Knight, Bishop, Queen, King, Bishop, Knight, Rook] \<and>
     map (at b 0) [0, 1, 2, 3, 4, 5, 6, 7] =
       map (\<lambda>k. Inr (Some (Piece k BLACK))) [Rook, Knight, Bishop, Queen, King, Bishop, Knight, Rook] \<and>
     map (\<lambda>r. map (at b r) [0, 1, 2, 3, 4, 5, 6, 7]) [2, 3, 4, 5] = replicate 4 (replicate 8 (Inr None))"
proof (intro exI [of _ start_position] conjI)
  show "new_board = Inr start_position"
    by (rule new_board_value)
  show "length (grid start_position) = 8"
    by code_simp
  show "map length (grid start_position) = replicate 8 8"
    by code_simp
  show "count_color WHITE start_position = 16"
    by code_simp
  show "count_color BLACK start_position = 16"
    by code_simp
  show "map (at start_position 6) [0, 1, 2, 3, 4, 5, 6, 7] = replicate 8 (Inr (Some (Piece Pawn WHITE)))"
    by code_simp
  show "map (at start_position 1) [0, 1, 2, 3, 4, 5, 6, 7] = replicate 8 (Inr (Some (Piece Pawn BLACK)))"
    by code_simp
  show "map (at start_position 7) [0, 1, 2, 3, 4, 5, 6, 7] =
       map (\<lambda>k. Inr (Some (Piece k WHITE))) [Rook, Knight, Bishop, Queen, King, Bishop, Knight, Rook]"
    by code_simp
  show "map (at start_position 0) [0, 1, 2, 3, 4, 5, 6, 7] =
       map (\<lambda>k. Inr (Some (Piece k BLACK))) [Rook, Knight, Bishop, Queen, King, Bishop, Knight, Rook]"
    by code_simp
  show "map (\<lambda>r. map (at start_position r) [0, 1, 2, 3, 4, 5, 6, 7]) [2, 3, 4, 5] =
       replicate 4 (replicate 8 (Inr None))"
    by code_simp
qed

subsection \<open>Turn and history\<close>

text \<open>
  The entry that a successful move command appends is made of the two words of the
  command as they were typed. The command \<^verbatim>\<open>E2 E4\<close> in the starting position moves the pawn
  from row 6, column 4 to row 4, column 4 and appends \<^verbatim>\<open>E2 -> E4\<close>, which is not made of the
  names \<^verbatim>\<open>e2\<close> and \<^verbatim>\<open>e4\<close> that \<^verbatim>\<open>rc_to_algebraic\<close> gives these squares.
\<close>

theorem history_entry_counterexample:
  "algebraic_to_rc ''E2'' = Inr (Some (6, 4)) \<and> algebraic_to_rc ''E4'' = Inr (Some (4, 4)) \<and>
   rc_to_algebraic 6 4 = Inr ''e2'' \<and> rc_to_algebraic 4 4 = Inr ''e4'' \<and>
   move (board start_game) (6, 4) (4, 4) = Some (Inr ((True, []), after_e2e4)) \<and>
   loop_body start_game ''E2 E4'' =
     Some (Inr (\<lparr>board = after_e2e4, turn = BLACK, history = [''E2 -> E4''], running = True\<rparr>, True)) \<and>
   history \<lparr>board = after_e2e4, turn = BLACK, history = [''E2 -> E4''], running = True\<rparr> \<noteq>
     history start_game @ [''e2'' @ '' -> '' @ ''e4'']"
proof (intro conjI)
  show "algebraic_to_rc ''E2'' = Inr (Some (6, 4))" by code_simp
  show "algebraic_to_rc ''E4'' = Inr (Some (4, 4))" by code_simp
  show "rc_to_algebraic 6 4 = Inr ''e2''" by code_simp
  show "rc_to_algebraic 4 4 = Inr ''e4''" by code_simp
  show "move (board start_game) (6, 4) (4, 4) = Some (Inr ((True, []), after_e2e4))"
    using move_e2e4 by (simp add: start_game_def)
  show "loop_body start_game ''E2 E4'' =
     Some (Inr (\<lparr>board = after_e2e4, turn = BLACK, history = [''E2 -> E4''], running = True\<rparr>, True))"
    by code_simp
  show "history \<lparr>board = after_e2e4, turn = BLACK, history = [''E2 -> E4''], running = True\<rparr> \<noteq>
     history start_game @ [''e2'' @ '' -> '' @ ''e4'']"
    by (simp add: start_game_def)
qed

text \<open>
  Claim C8, with the history entry as the code writes it. In the handling of a move
  command (lines 150 to 160 of \<^verbatim>\<open>Game.input_loop\<close>, and the loop body around them): when
  the command is two words that parse to the squares \<open>src\<close> and \<open>dst\<close>, on a board of eight
  rows of eight cells the lookup of \<open>src\<close> and \<^verbatim>\<open>Board.move\<close> return, and
  \<^item> if \<open>src\<close> is vacant, or holds a piece of the side that is not to move, or
    \<^verbatim>\<open>Board.move\<close> returns the failure flag, the game is returned as it was, so turn and
    history are unchanged;
  \<^item> if \<open>src\<close> holds a piece of the side to move and \<^verbatim>\<open>Board.move\<close> returns the success
    flag, the game returned has the board after the move, the turn of the other colour,
    and the history with exactly one entry appended, the two words as typed joined by
    \<^verbatim>\<open> -> \<close>; lowercased, each word is the algebraic name of its square.
  A command that is not two words, or has a word that does not parse, leaves the game
  as it was, and so do the commands quit, exit, board, history and moves; the loop body
  returns for a move command what the handling of the command returns. The turn is
  changed by \<^verbatim>\<open>switch_turn\<close>, which exchanges the two colours.
\<close>

theorem turn_and_history:
  "other WHITE = BLACK \<and> other BLACK = WHITE \<and> switch_turn g = g\<lparr>turn := other (turn g)\<rparr> \<and>
   (wf_board (board g) \<and> py_split raw = [w0, w1] \<and>
    algebraic_to_rc w0 = Inr (Some src) \<and> algebraic_to_rc w1 = Inr (Some dst) \<longrightarrow>
      rc_to_algebraic (fst src) (snd src) = Inr (py_lower w0) \<and>
      rc_to_algebraic (fst dst) (snd dst) = Inr (py_lower w1) \<and>
      (\<exists>po. at (board g) (fst src) (snd src) = Inr po) \<and>
      (\<exists>ok b''. move (board g) src dst = Some (Inr ((ok, []), b'')))) \<and>
   (py_split raw = [w0, w1] \<and>
    algebraic_to_rc w0 = Inr (Some src) \<and> algebraic_to_rc w1 = Inr (Some dst) \<longrightarrow>
      (at (board g) (fst src) (snd src) = Inr None \<longrightarrow> move_command g raw = Some (Inr g)) \<and>
      (at (board g) (fst src) (snd src) = Inr (Some p) \<and> color p \<noteq> turn g \<longrightarrow>
         move_command g raw = Some (Inr g)) \<and>
      (at (board g) (fst src) (snd src) = Inr (Some p) \<and> color p = turn g \<and>
       move (board g) src dst = Some (Inr ((False, msg), b')) \<longrightarrow>
         move_command g raw = Some (Inr g)) \<and>
      (at (board g) (fst src) (snd src) = Inr (Some p) \<and> color p = turn g \<and>
       move (board g) src dst = Some (Inr ((True, msg), b')) \<longrightarrow>
         move_command g raw =
           Some (Inr (g\<lparr>board := b', turn := other (turn g),
                        history := history g @ [w0 @ '' -> '' @ w1]\<rparr>)))) \<and>
   (length (py_split raw) \<noteq> 2 \<longrightarrow> move_command g raw = Some (Inr g)) \<and>
   (py_split raw = [w0, w1] \<and> (algebraic_to_rc w0 = Inr None \<or> algebraic_to_rc w1 = Inr None) \<longrightarrow>
      move_command g raw = Some (Inr g)) \<and>
   (py_strip line \<in> {''quit'', ''exit''} \<longrightarrow> loop_body g line = Some (Inr (g, False))) \<and>
   (py_strip line \<in> {''board'', ''history''} \<longrightarrow> loop_body g line = Some (Inr (g, True))) \<and>
   (wf_board (board g) \<and> py_strip line \<notin> {''quit'', ''exit'', ''board'', ''history''} \<and>
    startswith (py_strip line) ''moves '' \<longrightarrow> loop_body g line = Some (Inr (g, True))) \<and>
   (py_strip line \<notin> {''quit'', ''exit'', ''board'', ''history''} \<and>
    \<not> startswith (py_strip line) ''moves '' \<and> move_command g (py_strip line) = Some (Inr g') \<longrightarrow>
      loop_body g line = Some (Inr (g', True)))"
proof -
  have flip: "other WHITE = BLACK" "other BLACK = WHITE" "switch_turn g = g\<lparr>turn := other (turn g)\<rparr>"
    by (simp_all add: other_def switch_turn_def)
  have total: "rc_to_algebraic (fst src) (snd src) = Inr (py_lower w0) \<and>
      rc_to_algebraic (fst dst) (snd dst) = Inr (py_lower w1) \<and>
      (\<exists>po. at (board g) (fst src) (snd src) = Inr po) \<and>
      (\<exists>ok b''. move (board g) src dst = Some (Inr ((ok, []), b'')))"
    if "wf_board (board g) \<and> py_split raw = [w0, w1] \<and>
        algebraic_to_rc w0 = Inr (Some src) \<and> algebraic_to_rc w1 = Inr (Some dst)"
  proof -
    from that have wf: "wf_board (board g)" and parts: "py_split raw = [w0, w1]"
      and s: "algebraic_to_rc w0 = Inr (Some src)" and d: "algebraic_to_rc w1 = Inr (Some dst)"
      by simp_all
    from parts have "w0 \<in> set (py_split raw)" "w1 \<in> set (py_split raw)"
      by simp_all
    then have "py_strip w0 = w0" "py_strip w1 = w1"
      by (simp_all add: py_split_words py_strip_word)
    then have norm: "normalize w0 = py_lower w0" "normalize w1 = py_lower w1"
      by (simp_all add: normalize_def)
    from s d have names: "rc_to_algebraic (fst src) (snd src) = Inr (py_lower w0)"
      "rc_to_algebraic (fst dst) (snd dst) = Inr (py_lower w1)"
      using algebraic_to_rc_name [of w0 src] algebraic_to_rc_name [of w1 dst] norm by simp_all
    from s have inb_s: "in_bounds (fst src) (snd src)"
      using algebraic_to_rc_in_bounds [of w0 "fst src" "snd src"] by simp
    from d have inb_d: "in_bounds (fst dst) (snd dst)"
      using algebraic_to_rc_in_bounds [of w1 "fst dst" "snd dst"] by simp
    from at_total [OF wf inb_s] have occ: "\<exists>po. at (board g) (fst src) (snd src) = Inr po" .
    from move_outcome [OF wf inb_s inb_d]
    have "\<exists>ok b''. move (board g) src dst = Some (Inr ((ok, []), b''))"
      by auto
    with names occ show ?thesis
      by (intro conjI)
  qed
  have cmd: "move_command g raw = apply_move g w0 w1 src dst"
    if "py_split raw = [w0, w1] \<and>
        algebraic_to_rc w0 = Inr (Some src) \<and> algebraic_to_rc w1 = Inr (Some dst)"
    using that by (simp add: move_command_two)
  have refuse: "move_command g raw = Some (Inr g)"
    if c: "py_split raw = [w0, w1] \<and>
        algebraic_to_rc w0 = Inr (Some src) \<and> algebraic_to_rc w1 = Inr (Some dst)"
      and "at (board g) (fst src) (snd src) = Inr (Some p) \<and> color p = turn g \<and>
       move (board g) src dst = Some (Inr ((False, msg), b'))"
  proof -
    from that(2) have p: "at (board g) (fst src) (snd src) = Inr (Some p)" "color p = turn g"
      and mv: "move (board g) src dst = Some (Inr ((False, msg), b'))"
      by simp_all
    from mv have "b' = board g"
      using move_refusal_keeps_board [of "board g" "fst src" "snd src" "fst dst" "snd dst" msg b']
      by simp
    with mv have "move (board g) src dst = Some (Inr ((False, msg), board g))"
      by simp
    with p show ?thesis
      by (simp add: cmd [OF c] apply_move_rejected)
  qed
  have cases: "(at (board g) (fst src) (snd src) = Inr None \<longrightarrow> move_command g raw = Some (Inr g)) \<and>
      (at (board g) (fst src) (snd src) = Inr (Some p) \<and> color p \<noteq> turn g \<longrightarrow>
         move_command g raw = Some (Inr g)) \<and>
      (at (board g) (fst src) (snd src) = Inr (Some p) \<and> color p = turn g \<and>
       move (board g) src dst = Some (Inr ((False, msg), b')) \<longrightarrow>
         move_command g raw = Some (Inr g)) \<and>
      (at (board g) (fst src) (snd src) = Inr (Some p) \<and> color p = turn g \<and>
       move (board g) src dst = Some (Inr ((True, msg), b')) \<longrightarrow>
         move_command g raw =
           Some (Inr (g\<lparr>board := b', turn := other (turn g),
                        history := history g @ [w0 @ '' -> '' @ w1]\<rparr>)))"
    if c: "py_split raw = [w0, w1] \<and>
        algebraic_to_rc w0 = Inr (Some src) \<and> algebraic_to_rc w1 = Inr (Some dst)"
  proof (intro conjI impI)
    assume "at (board g) (fst src) (snd src) = Inr None"
    then show "move_command g raw = Some (Inr g)"
      by (simp add: cmd [OF c] apply_move_vacant)
  next
    assume "at (board g) (fst src) (snd src) = Inr (Some p) \<and> color p \<noteq> turn g"
    then show "move_command g raw = Some (Inr g)"
      by (simp add: cmd [OF c] apply_move_not_owned)
  next
    assume "at (board g) (fst src) (snd src) = Inr (Some p) \<and> color p = turn g \<and>
       move (board g) src dst = Some (Inr ((False, msg), b'))"
    with c show "move_command g raw = Some (Inr g)"
      by (rule refuse)
  next
    assume "at (board g) (fst src) (snd src) = Inr (Some p) \<and> color p = turn g \<and>
       move (board g) src dst = Some (Inr ((True, msg), b'))"
    then show "move_command g raw =
           Some (Inr (g\<lparr>board := b', turn := other (turn g),
                        history := history g @ [w0 @ '' -> '' @ w1]\<rparr>))"
      by (simp add: cmd [OF c] apply_move_done)
  qed
  have short: "move_command g raw = Some (Inr g)" if "length (py_split raw) \<noteq> 2"
    using that by (rule move_command_short)
  have unparsed: "move_command g raw = Some (Inr g)"
    if "py_split raw = [w0, w1] \<and> (algebraic_to_rc w0 = Inr None \<or> algebraic_to_rc w1 = Inr None)"
  proof -
    from that have parts: "py_split raw = [w0, w1]" by simp
    from algebraic_to_rc_returns obtain s where s: "algebraic_to_rc w0 = Inr s" by blast
    from algebraic_to_rc_returns obtain d where d: "algebraic_to_rc w1 = Inr d" by blast
    from that s d have "s = None \<or> d = None" by auto
    then show ?thesis
      by (cases s) (auto simp add: move_command_two [OF parts] s d)
  qed
  have stop: "loop_body g line = Some (Inr (g, False))" if "py_strip line \<in> {''quit'', ''exit''}"
    using that by (rule loop_body_fixed)
  have view: "loop_body g line = Some (Inr (g, True))" if "py_strip line \<in> {''board'', ''history''}"
    using that by (rule loop_body_fixed)
  have listing: "loop_body g line = Some (Inr (g, True))"
    if "wf_board (board g) \<and> py_strip line \<notin> {''quit'', ''exit'', ''board'', ''history''} \<and>
        startswith (py_strip line) ''moves ''"
    using that loop_body_moves [of g line] by blast
  have command: "loop_body g line = Some (Inr (g', True))"
    if "py_strip line \<notin> {''quit'', ''exit'', ''board'', ''history''} \<and>
        \<not> startswith (py_strip line) ''moves '' \<and> move_command g (py_strip line) = Some (Inr g')"
    using that loop_body_move_command [of line g] by simp
  show ?thesis
    by (intro conjI;
        (rule flip | (rule impI, (erule total | erule cases | erule short | erule unparsed |
           erule stop | erule view | erule listing | erule command))))
qed

theorem turn_and_history_witness:
  "wf_board (board start_game) \<and>
   py_split ''e2 e4'' = [''e2'', ''e4''] \<and>
   algebraic_to_rc ''e2'' = Inr (Some (6, 4)) \<and> algebraic_to_rc ''e4'' = Inr (Some (4, 4)) \<and>
   at (board start_game) 6 4 = Inr (Some (Piece Pawn WHITE)) \<and>
   color (Piece Pawn WHITE) = turn start_game \<and>
   move (board start_game) (6, 4) (4, 4) = Some (Inr ((True, []), after_e2e4)) \<and>
   rc_to_algebraic 6 4 = Inr (py_lower ''e2'') \<and> rc_to_algebraic 4 4 = Inr (py_lower ''e4'') \<and>
   move_command start_game ''e2 e4'' =
     Some (Inr \<lparr>board = after_e2e4, turn = BLACK, history = [''e2 -> e4''], running = True\<rparr>) \<and>
   loop_body start_game ''e2 e4'' =
     Some (Inr (\<lparr>board = after_e2e4, turn = BLACK, history = [''e2 -> e4''], running = True\<rparr>, True)) \<and>
   py_split ''e4 e5'' = [''e4'', ''e5''] \<and> algebraic_to_rc ''e5'' = Inr (Some (3, 4)) \<and>
   at (board start_game) 4 4 = Inr None \<and>
   move_command start_game ''e4 e5'' = Some (Inr start_game) \<and>
   py_split ''e7 e5'' = [''e7'', ''e5''] \<and> algebraic_to_rc ''e7'' = Inr (Some (1, 4)) \<and>
   at (board start_game) 1 4 = Inr (Some (Piece Pawn BLACK)) \<and>
   color (Piece Pawn BLACK) \<noteq> turn start_game \<and>
   move_command start_game ''e7 e5'' = Some (Inr start_game) \<and>
   py_split ''e2 e5'' = [''e2'', ''e5''] \<and>
   move (board start_game) (6, 4) (3, 4) = Some (Inr ((False, []), board start_game)) \<and>
   move_command start_game ''e2 e5'' = Some (Inr start_game)"
proof -
  let ?e2 = "(6, 4) :: square" and ?e4 = "(4, 4) :: square" and ?e5 = "(3, 4) :: square"
    and ?e7 = "(1, 4) :: square"
  have wf: "wf_board (board start_game)" by (rule wf_start_game)
  have s1: "py_split ''e2 e4'' = [''e2'', ''e4'']" by code_simp
  have s2: "py_split ''e4 e5'' = [''e4'', ''e5'']" by code_simp
  have s3: "py_split ''e7 e5'' = [''e7'', ''e5'']" by code_simp
  have s4: "py_split ''e2 e5'' = [''e2'', ''e5'']" by code_simp
  have a2: "algebraic_to_rc ''e2'' = Inr (Some ?e2)" by code_simp
  have a4: "algebraic_to_rc ''e4'' = Inr (Some ?e4)" by code_simp
  have a5: "algebraic_to_rc ''e5'' = Inr (Some ?e5)" by code_simp
  have a7: "algebraic_to_rc ''e7'' = Inr (Some ?e7)" by code_simp
  have o2: "at (board start_game) 6 4 = Inr (Some (Piece Pawn WHITE))" by code_simp
  have o4: "at (board start_game) 4 4 = Inr None" by code_simp
  have o7: "at (board start_game) 1 4 = Inr (Some (Piece Pawn BLACK))" by code_simp
  have own: "color (Piece Pawn WHITE) = turn start_game" by (simp add: start_game_def)
  have foe: "color (Piece Pawn BLACK) \<noteq> turn start_game" by (simp add: start_game_def)
  have m1: "move (board start_game) ?e2 ?e4 = Some (Inr ((True, []), after_e2e4))"
    using move_e2e4 by (simp add: start_game_def)
  have m2: "move (board start_game) ?e2 ?e5 = Some (Inr ((False, []), board start_game))"
    by code_simp
  have l1: "py_strip ''e2 e4'' \<notin> {''quit'', ''exit'', ''board'', ''history''}" by code_simp
  have l2: "\<not> startswith (py_strip ''e2 e4'') ''moves ''" by code_simp
  have l3: "py_strip ''e2 e4'' = ''e2 e4''" by code_simp
  have after: "start_game\<lparr>board := after_e2e4, turn := other (turn start_game),
        history := history start_game @ [''e2'' @ '' -> '' @ ''e4'']\<rparr> =
      \<lparr>board = after_e2e4, turn = BLACK, history = [''e2 -> e4''], running = True\<rparr>"
    by (simp add: start_game_def other_def)
  from o2 have o2': "at (board start_game) (fst ?e2) (snd ?e2) = Inr (Some (Piece Pawn WHITE))"
    by simp
  from o4 have o4': "at (board start_game) (fst ?e4) (snd ?e4) = Inr None"
    by simp
  from o7 have o7': "at (board start_game) (fst ?e7) (snd ?e7) = Inr (Some (Piece Pawn BLACK))"
    by simp
  note won = turn_and_history [where g = start_game and msg = "[]"
      and raw = "''e2 e4''" and ?w0.0 = "''e2''" and ?w1.0 = "''e4''" and src = ?e2
      and dst = ?e4 and p = "Piece Pawn WHITE" and b' = after_e2e4 and line = "''e2 e4''"
      and g' = "\<lparr>board = after_e2e4, turn = BLACK, history = [''e2 -> e4''], running = True\<rparr>",
      THEN conjunct2, THEN conjunct2, THEN conjunct2]
  note won_total = won [THEN conjunct1, THEN mp, OF conjI [OF wf conjI [OF s1 conjI [OF a2 a4]]]]
  from won_total have names: "rc_to_algebraic 6 4 = Inr (py_lower ''e2'')"
    "rc_to_algebraic 4 4 = Inr (py_lower ''e4'')"
    by simp_all
  note won_cases = won [THEN conjunct2, THEN conjunct1, THEN mp, OF conjI [OF s1 conjI [OF a2 a4]]]
  note applied = won_cases [THEN conjunct2, THEN conjunct2, THEN conjunct2, THEN mp,
      OF conjI [OF o2' conjI [OF own m1]]]
  from applied have c1: "move_command start_game ''e2 e4'' =
     Some (Inr \<lparr>board = after_e2e4, turn = BLACK, history = [''e2 -> e4''], running = True\<rparr>)"
    by (simp only: after)
  from c1 have c1': "move_command start_game (py_strip ''e2 e4'') =
     Some (Inr \<lparr>board = after_e2e4, turn = BLACK, history = [''e2 -> e4''], running = True\<rparr>)"
    by (simp only: l3)
  note b1 = won [THEN conjunct2, THEN conjunct2, THEN conjunct2, THEN conjunct2, THEN conjunct2,
      THEN conjunct2, THEN conjunct2, THEN mp, OF conjI [OF l1 conjI [OF l2 c1']]]
  note vacant = turn_and_history [where g = start_game
      and raw = "''e4 e5''" and ?w0.0 = "''e4''" and ?w1.0 = "''e5''" and src = ?e4
      and dst = ?e5, THEN conjunct2, THEN conjunct2, THEN conjunct2, THEN conjunct2, THEN conjunct1, THEN mp, OF conjI [OF s2 conjI [OF a4 a5]]]
  note c2 = vacant [THEN conjunct1, THEN mp, OF o4']
  note foreign = turn_and_history [where g = start_game
      and raw = "''e7 e5''" and ?w0.0 = "''e7''" and ?w1.0 = "''e5''" and src = ?e7
      and dst = ?e5 and p = "Piece Pawn BLACK", THEN conjunct2, THEN conjunct2, THEN conjunct2,
      THEN conjunct2, THEN conjunct1, THEN mp,
      OF conjI [OF s3 conjI [OF a7 a5]]]
  note c3 = foreign [THEN conjunct2, THEN conjunct1, THEN mp, OF conjI [OF o7' foe]]
  note refused = turn_and_history [where g = start_game and msg = "[]"
      and raw = "''e2 e5''" and ?w0.0 = "''e2''" and ?w1.0 = "''e5''" and src = ?e2
      and dst = ?e5 and p = "Piece Pawn WHITE" and b' = "board start_game", THEN conjunct2,
      THEN conjunct2, THEN conjunct2, THEN conjunct2, THEN conjunct1, THEN mp, OF conjI [OF s4 conjI [OF a2 a5]]]
  note c4 = refused [THEN conjunct2, THEN conjunct2, THEN conjunct1, THEN mp,
      OF conjI [OF o2' conjI [OF own m2]]]
  from wf s1 a2 a4 o2 own m1 names c1 b1 s2 a5 o4 c2 s3 a7 o7 foe c3 s4 m2 c4 show ?thesis
    by (intro conjI)
qed

end
